theory Spec2Isabelle
  imports Complex_Main
begin

section \<open>Tensors of the tutorial notebooks\<close>

text \<open>
  The notebooks compute on tensors of the tensor library they import. A tensor is modelled by
  its shape, its element type and its elements in row-major order (the layout of a freshly
  built, contiguous tensor). The rank is part of the type: a matrix has a shape of type
  \<open>nat \<times> nat\<close>, a stack of matrices \<open>nat \<times> nat \<times> nat\<close>, a stack of stacks
  \<open>nat \<times> nat \<times> nat \<times> nat\<close>.

  An element of a tensor of 32-bit floats is a real number, an infinity or not-a-number;
  an element of a tensor of 64-bit integers is an integer, held as a real number. The
  arithmetic of the library is the arithmetic of these types: a float operation gives
  the real result rounded to the nearest 32-bit float (ties to the even mantissa,
  overflow to an infinity), an integer operation wraps around at 64 bits. Two
  things are not modelled: the sign of zero, and the order in which the library adds
  up the elements of a reduction or of a matrix product, which it does not document;
  the model adds them in row-major order, from the left.
\<close>

datatype scalar = Fin real | PInf | NInf | NaN

datatype dtype = Float32 | Int64

datatype error =
    NegativeDimension  \<comment> \<open>RuntimeError of \<open>torch.zeros\<close>: a dimension is negative\<close>
  | EmptyReduction     \<comment> \<open>RuntimeError of \<open>max()\<close>: the tensor has no element\<close>
  | MeanDtype          \<comment> \<open>RuntimeError of \<open>mean()\<close>: the tensor holds integers\<close>
  | BroadcastError     \<comment> \<open>RuntimeError: the shapes of two operands do not broadcast\<close>
  | IndexError         \<comment> \<open>IndexError: an index is out of range\<close>
  | ReshapeError       \<comment> \<open>RuntimeError of \<open>reshape\<close>: the number of elements differs\<close>
  | MatmulError        \<comment> \<open>RuntimeError of \<open>matmul\<close>: inner sizes or element types differ\<close>
  | StackError         \<comment> \<open>RuntimeError of \<open>stack\<close>: no tensor, or tensors of different shapes\<close>
  | TypeError          \<comment> \<open>TypeError of \<open>stack\<close>: an element is not a tensor\<close>
  | BadReference       \<comment> \<open>a name that is bound to no object\<close>

record 's tensor =
  shape :: 's
  dtype :: dtype
  data :: "scalar list"

type_synonym tensor2 = "(nat \<times> nat) tensor"
type_synonym tensor3 = "(nat \<times> nat \<times> nat) tensor"
type_synonym tensor4 = "(nat \<times> nat \<times> nat \<times> nat) tensor"

subsection \<open>32-bit floats\<close>

text \<open>Rounding a real number to the nearest integer, a tie going to the even one.\<close>

definition round_half_even :: "real \<Rightarrow> int" where
  "round_half_even x =
     (let f = \<lfloor>x\<rfloor>; d = x - of_int f in
      if d < 1 / 2 then f else if 1 / 2 < d then f + 1 else if even f then f else f + 1)"

text \<open>The binary exponent of a float: the \<open>e\<close> with \<open>2^e \<le> |x| < 2^(e+1)\<close>, kept between
  \<open>-126\<close> (below it the floats are subnormal and evenly spaced) and \<open>127\<close>. It is found
  by halving or doubling \<open>|x|\<close>.\<close>

fun exp_up :: "nat \<Rightarrow> real \<Rightarrow> int \<Rightarrow> int" where
  "exp_up 0 a e = e"
| "exp_up (Suc n) a e = (if 2 \<le> a then exp_up n (a / 2) (e + 1) else e)"

fun exp_down :: "nat \<Rightarrow> real \<Rightarrow> int \<Rightarrow> int" where
  "exp_down 0 a e = e"
| "exp_down (Suc n) a e = (if a < 1 then exp_down n (2 * a) (e - 1) else e)"

definition f32_exponent :: "real \<Rightarrow> int" where
  "f32_exponent x =
     (if \<bar>x\<bar> < 2 powi (- 126) then - 126
      else if 1 \<le> \<bar>x\<bar> then exp_up 127 \<bar>x\<bar> 0
      else exp_down 126 \<bar>x\<bar> 0)"

text \<open>Rounding to a 32-bit float: a mantissa of 24 bits, so the floats near \<open>x\<close> are the
  multiples of \<open>2^(e - 23)\<close>; a result of magnitude \<open>2^128\<close> or more is an infinity.\<close>

definition f32_round :: "real \<Rightarrow> scalar" where
  "f32_round x =
     (let q = 2 powi (f32_exponent x - 23);
          y = of_int (round_half_even (x / q)) * q in
      if 2 powi 128 \<le> \<bar>y\<bar> then (if 0 < x then PInf else NInf) else Fin y)"

definition positive :: "scalar \<Rightarrow> bool" where
  "positive v = (case v of Fin x \<Rightarrow> 0 < x | PInf \<Rightarrow> True | NInf \<Rightarrow> False | NaN \<Rightarrow> False)"

fun fadd :: "scalar \<Rightarrow> scalar \<Rightarrow> scalar" where
  "fadd (Fin a) (Fin b) = f32_round (a + b)"
| "fadd NaN b = NaN"
| "fadd a NaN = NaN"
| "fadd PInf NInf = NaN"
| "fadd NInf PInf = NaN"
| "fadd PInf b = PInf"
| "fadd a PInf = PInf"
| "fadd NInf b = NInf"
| "fadd a NInf = NInf"

fun fmul :: "scalar \<Rightarrow> scalar \<Rightarrow> scalar" where
  "fmul (Fin a) (Fin b) = f32_round (a * b)"
| "fmul a b =
     (if a = NaN \<or> b = NaN \<or> a = Fin 0 \<or> b = Fin 0 then NaN
      else if positive a = positive b then PInf else NInf)"

text \<open>Division; a zero divisor counts as positive.\<close>

fun fdiv :: "scalar \<Rightarrow> scalar \<Rightarrow> scalar" where
  "fdiv (Fin a) (Fin b) =
     (if b = 0 then (if a = 0 then NaN else if 0 < a then PInf else NInf)
      else f32_round (a / b))"
| "fdiv (Fin a) PInf = Fin 0"
| "fdiv (Fin a) NInf = Fin 0"
| "fdiv PInf (Fin b) = (if 0 \<le> b then PInf else NInf)"
| "fdiv NInf (Fin b) = (if 0 \<le> b then NInf else PInf)"
| "fdiv a b = NaN"

text \<open>The greater of two elements; not-a-number wins, as in the library's \<open>max()\<close>.\<close>

fun smax :: "scalar \<Rightarrow> scalar \<Rightarrow> scalar" where
  "smax (Fin a) (Fin b) = Fin (max a b)"
| "smax NaN b = NaN"
| "smax a NaN = NaN"
| "smax PInf b = PInf"
| "smax a PInf = PInf"
| "smax NInf b = b"
| "smax a NInf = a"

subsection \<open>64-bit integers\<close>

definition wrap64 :: "int \<Rightarrow> int" where
  "wrap64 n = (n + 2 ^ 63) mod 2 ^ 64 - 2 ^ 63"

fun iadd :: "scalar \<Rightarrow> scalar \<Rightarrow> scalar" where
  "iadd (Fin a) (Fin b) = Fin (of_int (wrap64 (\<lfloor>a\<rfloor> + \<lfloor>b\<rfloor>)))"
| "iadd a b = NaN"

fun imul :: "scalar \<Rightarrow> scalar \<Rightarrow> scalar" where
  "imul (Fin a) (Fin b) = Fin (of_int (wrap64 (\<lfloor>a\<rfloor> * \<lfloor>b\<rfloor>)))"
| "imul a b = NaN"

subsection \<open>Arithmetic by element type\<close>

definition sadd :: "dtype \<Rightarrow> scalar \<Rightarrow> scalar \<Rightarrow> scalar" where
  "sadd d a b = (case d of Float32 \<Rightarrow> fadd a b | Int64 \<Rightarrow> iadd a b)"

definition smul :: "dtype \<Rightarrow> scalar \<Rightarrow> scalar \<Rightarrow> scalar" where
  "smul d a b = (case d of Float32 \<Rightarrow> fmul a b | Int64 \<Rightarrow> imul a b)"

text \<open>Two operands of different element types are both taken to the float type.\<close>

definition promote :: "dtype \<Rightarrow> dtype \<Rightarrow> dtype" where
  "promote d e = (if d = Float32 \<or> e = Float32 then Float32 else Int64)"

text \<open>The element \<open>v\<close> of type \<open>d\<close> as a 32-bit float: an integer is rounded, a float is
  itself.\<close>

definition to_float32 :: "dtype \<Rightarrow> scalar \<Rightarrow> scalar" where
  "to_float32 d v =
     (case d of
        Float32 \<Rightarrow> v
      | Int64 \<Rightarrow> (case v of Fin a \<Rightarrow> f32_round a | PInf \<Rightarrow> v | NInf \<Rightarrow> v | NaN \<Rightarrow> v))"

text \<open>The element \<open>v\<close> of type \<open>d\<close> as an element of the promoted type \<open>p\<close>.\<close>

definition promoted :: "dtype \<Rightarrow> dtype \<Rightarrow> scalar \<Rightarrow> scalar" where
  "promoted d p v = (if p = Float32 then to_float32 d v else v)"

text \<open>A Python integer as an element of type \<open>d\<close>.\<close>

definition of_pyint :: "dtype \<Rightarrow> int \<Rightarrow> scalar" where
  "of_pyint d n = (case d of Float32 \<Rightarrow> f32_round (of_int n) | Int64 \<Rightarrow> Fin (of_int (wrap64 n)))"

subsection \<open>Library operations on matrices\<close>

text \<open>The row-major list of an \<open>h \<times> w\<close> matrix whose element in row \<open>r\<close>, column \<open>c\<close> is \<open>f r c\<close>.\<close>

definition tabulate2 :: "nat \<Rightarrow> nat \<Rightarrow> (nat \<Rightarrow> nat \<Rightarrow> 'a) \<Rightarrow> 'a list" where
  "tabulate2 h w f = map (\<lambda>k. f (k div w) (k mod w)) [0..<h * w]"

definition at2 :: "tensor2 \<Rightarrow> nat \<Rightarrow> nat \<Rightarrow> scalar" where
  "at2 X i j = data X ! (i * snd (shape X) + j)"

text \<open>\<open>torch.zeros((a, b))\<close>: a fresh matrix of 32-bit floats, all zero. The sizes are
  Python integers; a negative one is refused.\<close>

definition zeros2 :: "int \<Rightarrow> int \<Rightarrow> error + tensor2" where
  "zeros2 a b =
     (if a < 0 \<or> b < 0 then Inl NegativeDimension
      else Inr \<lparr>shape = (nat a, nat b), dtype = Float32,
                data = replicate (nat a * nat b) (Fin 0)\<rparr>)"

text \<open>\<open>X[i:i', j:j']\<close> with bounds that are not negative: Python clips both bounds of a
  slice to the size of the axis, and a slice whose end is not after its start is empty.\<close>

definition slice2 :: "tensor2 \<Rightarrow> nat \<Rightarrow> nat \<Rightarrow> nat \<Rightarrow> nat \<Rightarrow> tensor2" where
  "slice2 X i i' j j' =
     (case shape X of (H, W) \<Rightarrow>
        let r0 = min i H; r1 = min i' H; c0 = min j W; c1 = min j' W in
        \<lparr>shape = (r1 - r0, c1 - c0), dtype = dtype X,
         data = tabulate2 (r1 - r0) (c1 - c0) (\<lambda>r c. data X ! ((r0 + r) * W + (c0 + c)))\<rparr>)"

text \<open>Broadcasting of one axis: equal sizes, or one of them is 1.\<close>

definition bdim :: "nat \<Rightarrow> nat \<Rightarrow> nat option" where
  "bdim a b = (if a = b then Some a else if a = 1 then Some b else if b = 1 then Some a else None)"

definition broadcast2 :: "(dtype \<Rightarrow> scalar \<Rightarrow> scalar \<Rightarrow> scalar) \<Rightarrow> tensor2 \<Rightarrow> tensor2 \<Rightarrow> error + tensor2" where
  "broadcast2 f A B =
     (case (shape A, shape B) of ((ha, wa), (hb, wb)) \<Rightarrow>
        (case (bdim ha hb, bdim wa wb) of
           (Some h, Some w) \<Rightarrow>
             let p = promote (dtype A) (dtype B) in
             Inr \<lparr>shape = (h, w), dtype = p,
                  data = tabulate2 h w (\<lambda>r c.
                    f p (promoted (dtype A) p
                           (data A ! ((if ha = 1 then 0 else r) * wa + (if wa = 1 then 0 else c))))
                        (promoted (dtype B) p
                           (data B ! ((if hb = 1 then 0 else r) * wb + (if wb = 1 then 0 else c)))))\<rparr>
         | _ \<Rightarrow> Inl BroadcastError))"

text \<open>\<open>A * B\<close> and \<open>A + B\<close>, element by element, in the promoted element type.\<close>

definition tmul :: "tensor2 \<Rightarrow> tensor2 \<Rightarrow> error + tensor2" where
  "tmul A B = broadcast2 smul A B"

definition tadd :: "tensor2 \<Rightarrow> tensor2 \<Rightarrow> error + tensor2" where
  "tadd A B = broadcast2 sadd A B"

text \<open>The reductions \<open>.sum()\<close>, \<open>.max()\<close> and \<open>.mean()\<close> over all elements. They return a
  tensor of rank 0: the model returns its element type and its element. The sum and
  the maximum have the element type of the tensor. The maximum of no element is an
  error; the mean of integers is an error; the mean of floats is their sum divided by
  their number, itself taken as a float, and the mean of no float is not-a-number.\<close>

type_synonym tscalar = "dtype \<times> scalar"

definition numel2 :: "tensor2 \<Rightarrow> nat" where
  "numel2 T = fst (shape T) * snd (shape T)"

definition tsum :: "tensor2 \<Rightarrow> tscalar" where
  "tsum T = (dtype T, foldl (sadd (dtype T)) (Fin 0) (data T))"

definition tmax :: "tensor2 \<Rightarrow> error + tscalar" where
  "tmax T = (if numel2 T = 0 then Inl EmptyReduction
             else Inr (dtype T, foldl smax (hd (data T)) (tl (data T))))"

definition tmean :: "tensor2 \<Rightarrow> error + tscalar" where
  "tmean T = (if dtype T = Int64 then Inl MeanDtype
              else Inr (Float32, fdiv (foldl fadd (Fin 0) (data T))
                                       (f32_round (real (numel2 T)))))"

text \<open>\<open>Y[i, j] = v\<close> with indices that are not negative. \<open>Y\<close> is the matrix of floats that
  \<open>torch.zeros\<close> returned in every use: the value is stored as a 32-bit float.\<close>

definition stored :: "tscalar \<Rightarrow> scalar" where
  "stored v = to_float32 (fst v) (snd v)"

definition setitem2 :: "tensor2 \<Rightarrow> nat \<Rightarrow> nat \<Rightarrow> tscalar \<Rightarrow> error + tensor2" where
  "setitem2 Y i j v =
     (case shape Y of (h, w) \<Rightarrow>
        if i < h \<and> j < w then Inr (Y\<lparr>data := (data Y)[i * w + j := stored v]\<rparr>)
        else Inl IndexError)"

subsection \<open>Loops\<close>

text \<open>\<open>for x in xs: body\<close> on a state; an exception in the body ends the loop.\<close>

fun for_each :: "'a list \<Rightarrow> ('a \<Rightarrow> 's \<Rightarrow> error + 's) \<Rightarrow> 's \<Rightarrow> error + 's" where
  "for_each [] body s = Inr s"
| "for_each (x # xs) body s =
     (case body x s of Inl e \<Rightarrow> Inl e | Inr s' \<Rightarrow> for_each xs body s')"

definition py_range :: "nat \<Rightarrow> nat list" where
  "py_range n = [0..<n]"

section \<open>Pooling and cross-correlation\<close>

text \<open>
  \<^verbatim>\<open>
  def pool2d(X, pool_size, mode='max'):
      p_h, p_w = pool_size
      Y = torch.zeros((X.shape[0] - p_h + 1, X.shape[1] - p_w + 1))
      for i in range(Y.shape[0]):
          for j in range(Y.shape[1]):
              if mode == 'max':
                  Y[i, j] = X[i: i + p_h, j: j + p_w].max()
              elif mode == 'avg':
                  Y[i, j] = X[i: i + p_h, j: j + p_w].mean()
      return Y
  \<close>
  The window sizes are natural numbers in the model.
\<close>

definition pool2d_cell :: "tensor2 \<Rightarrow> nat \<Rightarrow> nat \<Rightarrow> string \<Rightarrow> nat \<Rightarrow> nat \<Rightarrow> tensor2 \<Rightarrow> error + tensor2" where
  "pool2d_cell X p_h p_w mode i j Y =
     (if mode = ''max'' then
        (case tmax (slice2 X i (i + p_h) j (j + p_w)) of
           Inl e \<Rightarrow> Inl e | Inr v \<Rightarrow> setitem2 Y i j v)
      else if mode = ''avg'' then
        (case tmean (slice2 X i (i + p_h) j (j + p_w)) of
           Inl e \<Rightarrow> Inl e | Inr v \<Rightarrow> setitem2 Y i j v)
      else Inr Y)"

definition pool2d :: "tensor2 \<Rightarrow> nat \<times> nat \<Rightarrow> string \<Rightarrow> error + tensor2" where
  "pool2d X pool_size mode =
     (case pool_size of (p_h, p_w) \<Rightarrow>
        (case zeros2 (int (fst (shape X)) - int p_h + 1) (int (snd (shape X)) - int p_w + 1) of
           Inl e \<Rightarrow> Inl e
         | Inr Y \<Rightarrow>
             for_each (py_range (fst (shape Y))) (\<lambda>i Y.
               for_each (py_range (snd (shape Y))) (\<lambda>j Y.
                 pool2d_cell X p_h p_w mode i j Y) Y) Y))"

text \<open>
  \<^verbatim>\<open>
  def corr2d(X, K):
      h, w = K.shape
      Y = torch.zeros((X.shape[0] - h + 1, X.shape[1] - w + 1))
      for i in range(Y.shape[0]):
          for j in range(Y.shape[1]):
              Y[i, j] = (X[i:i + h, j:j + w] * K).sum()
      return Y
  \<close>
\<close>

definition corr2d_cell :: "tensor2 \<Rightarrow> tensor2 \<Rightarrow> nat \<Rightarrow> nat \<Rightarrow> nat \<Rightarrow> nat \<Rightarrow> tensor2 \<Rightarrow> error + tensor2" where
  "corr2d_cell X K h w i j Y =
     (case tmul (slice2 X i (i + h) j (j + w)) K of
        Inl e \<Rightarrow> Inl e | Inr P \<Rightarrow> setitem2 Y i j (tsum P))"

definition corr2d :: "tensor2 \<Rightarrow> tensor2 \<Rightarrow> error + tensor2" where
  "corr2d X K =
     (case shape K of (h, w) \<Rightarrow>
        (case zeros2 (int (fst (shape X)) - int h + 1) (int (snd (shape X)) - int w + 1) of
           Inl e \<Rightarrow> Inl e
         | Inr Y \<Rightarrow>
             for_each (py_range (fst (shape Y))) (\<lambda>i Y.
               for_each (py_range (snd (shape Y))) (\<lambda>j Y.
                 corr2d_cell X K h w i j Y) Y) Y))"

section \<open>Several channels\<close>

text \<open>Iterating over a stack yields its members along the first axis.\<close>

definition unbind3 :: "tensor3 \<Rightarrow> tensor2 list" where
  "unbind3 X =
     (case shape X of (C, H, W) \<Rightarrow>
        map (\<lambda>c. \<lparr>shape = (H, W), dtype = dtype X,
                  data = take (H * W) (drop (c * (H * W)) (data X))\<rparr>) [0..<C])"

definition unbind4 :: "tensor4 \<Rightarrow> tensor3 list" where
  "unbind4 K =
     (case shape K of (N, C, H, W) \<Rightarrow>
        map (\<lambda>n. \<lparr>shape = (C, H, W), dtype = dtype K,
                  data = take (C * (H * W)) (drop (n * (C * (H * W))) (data K))\<rparr>) [0..<N])"

text \<open>Python's \<open>sum\<close> starts from the integer 0 and adds the items from left to right; the
  sum of no item is that integer, not a tensor. Adding a tensor to a Python integer adds
  the integer to every element and keeps the element type. An item that raises ends the
  sum.\<close>

datatype pyval = PyInt int | PyTensor tensor2

definition py_add :: "pyval \<Rightarrow> tensor2 \<Rightarrow> error + pyval" where
  "py_add a T =
     (case a of
        PyInt n \<Rightarrow>
          Inr (PyTensor (T\<lparr>data := map (\<lambda>t. sadd (dtype T) t (of_pyint (dtype T) n)) (data T)\<rparr>))
      | PyTensor A \<Rightarrow> (case tadd A T of Inl e \<Rightarrow> Inl e | Inr S \<Rightarrow> Inr (PyTensor S)))"

fun py_sum :: "pyval \<Rightarrow> (error + tensor2) list \<Rightarrow> error + pyval" where
  "py_sum acc [] = Inr acc"
| "py_sum acc (Inl e # items) = Inl e"
| "py_sum acc (Inr T # items) =
     (case py_add acc T of Inl e \<Rightarrow> Inl e | Inr acc' \<Rightarrow> py_sum acc' items)"

text \<open>
  \<^verbatim>\<open>
  def corr2d_multi_in(X, K):
      return sum(corr2d(x, k) for x, k in zip(X, K))
  \<close>
\<close>

definition corr2d_multi_in :: "tensor3 \<Rightarrow> tensor3 \<Rightarrow> error + pyval" where
  "corr2d_multi_in X K =
     py_sum (PyInt 0) (map (\<lambda>(x, k). corr2d x k) (zip (unbind3 X) (unbind3 K)))"

text \<open>A list comprehension evaluates its items in order; the first exception ends it.\<close>

fun comprehension :: "(error + 'a) list \<Rightarrow> error + 'a list" where
  "comprehension [] = Inr []"
| "comprehension (Inl e # items) = Inl e"
| "comprehension (Inr v # items) =
     (case comprehension items of Inl e \<Rightarrow> Inl e | Inr vs \<Rightarrow> Inr (v # vs))"

text \<open>\<open>torch.stack(vs, 0)\<close>: every item must be a tensor, there must be one at least, and
  all of the same shape.\<close>

fun tensors_of :: "pyval list \<Rightarrow> tensor2 list option" where
  "tensors_of [] = Some []"
| "tensors_of (PyInt n # vs) = None"
| "tensors_of (PyTensor T # vs) =
     (case tensors_of vs of None \<Rightarrow> None | Some Ts \<Rightarrow> Some (T # Ts))"

definition stack0 :: "pyval list \<Rightarrow> error + tensor3" where
  "stack0 vs =
     (case tensors_of vs of
        None \<Rightarrow> Inl TypeError
      | Some [] \<Rightarrow> Inl StackError
      | Some (T # Ts) \<Rightarrow>
          if list_all (\<lambda>U. shape U = shape T) Ts
          then Inr \<lparr>shape = (Suc (length Ts), fst (shape T), snd (shape T)),
                    dtype = foldl promote (dtype T) (map dtype Ts),
                    data = concat (map data (T # Ts))\<rparr>
          else Inl StackError)"

text \<open>
  \<^verbatim>\<open>
  def corr2d_multi_in_out(X, K):
      return torch.stack([corr2d_multi_in(X, k) for k in K], 0)
  \<close>
\<close>

definition corr2d_multi_in_out :: "tensor3 \<Rightarrow> tensor4 \<Rightarrow> error + tensor3" where
  "corr2d_multi_in_out X K =
     (case comprehension (map (\<lambda>k. corr2d_multi_in X k) (unbind4 K)) of
        Inl e \<Rightarrow> Inl e
      | Inr vs \<Rightarrow> stack0 vs)"

subsection \<open>The kernel of size 1 as a matrix product\<close>

text \<open>\<open>reshape\<close> keeps the elements in their order and needs the same number of them.\<close>

definition reshape32 :: "tensor3 \<Rightarrow> nat \<times> nat \<Rightarrow> error + tensor2" where
  "reshape32 T s =
     (case (shape T, s) of ((a, b, c), (m, n)) \<Rightarrow>
        if a * (b * c) = m * n then Inr \<lparr>shape = s, dtype = dtype T, data = data T\<rparr>
        else Inl ReshapeError)"

definition reshape42 :: "tensor4 \<Rightarrow> nat \<times> nat \<Rightarrow> error + tensor2" where
  "reshape42 T s =
     (case (shape T, s) of ((a, b, c, d), (m, n)) \<Rightarrow>
        if a * (b * (c * d)) = m * n then Inr \<lparr>shape = s, dtype = dtype T, data = data T\<rparr>
        else Inl ReshapeError)"

definition reshape23 :: "tensor2 \<Rightarrow> nat \<times> nat \<times> nat \<Rightarrow> error + tensor3" where
  "reshape23 T s =
     (case (shape T, s) of ((m, n), (a, b, c)) \<Rightarrow>
        if m * n = a * (b * c) then Inr \<lparr>shape = s, dtype = dtype T, data = data T\<rparr>
        else Inl ReshapeError)"

text \<open>\<open>torch.matmul(A, B)\<close> on two matrices: the inner sizes must agree and so must the
  element types.\<close>

definition matmul :: "tensor2 \<Rightarrow> tensor2 \<Rightarrow> error + tensor2" where
  "matmul A B =
     (case (shape A, shape B) of ((n, m), (m', p)) \<Rightarrow>
        if m \<noteq> m' \<or> dtype A \<noteq> dtype B then Inl MatmulError
        else Inr \<lparr>shape = (n, p), dtype = dtype A,
                  data = tabulate2 n p (\<lambda>r c.
                    foldl (sadd (dtype A)) (Fin 0)
                      (map (\<lambda>k. smul (dtype A) (data A ! (r * m + k)) (data B ! (k * p + c)))
                           [0..<m]))\<rparr>)"

text \<open>
  \<^verbatim>\<open>
  def corr2d_multi_in_out_1x1(X, K):
      c_i, h, w = X.shape
      c_o = K.shape[0]
      X = X.reshape((c_i, h * w))
      print('X.shape: ', X.shape)
      K = K.reshape((c_o, c_i))
      print('K.shape: ', K.shape)
      Y = torch.matmul(K, X)
      return Y.reshape((c_o, h, w))
  \<close>
  The two \<open>print\<close> calls write the shapes to the standard output; they do not enter the
  result and are left out.
\<close>

definition corr2d_multi_in_out_1x1 :: "tensor3 \<Rightarrow> tensor4 \<Rightarrow> error + tensor3" where
  "corr2d_multi_in_out_1x1 X K =
     (case shape X of (c_i, h, w) \<Rightarrow>
        let c_o = fst (shape K) in
        (case reshape32 X (c_i, h * w) of
           Inl e \<Rightarrow> Inl e
         | Inr X' \<Rightarrow>
             (case reshape42 K (c_o, c_i) of
                Inl e \<Rightarrow> Inl e
              | Inr K' \<Rightarrow>
                  (case matmul K' X' of
                     Inl e \<Rightarrow> Inl e
                   | Inr Y \<Rightarrow> reshape23 Y (c_o, h, w)))))"

section \<open>The functions on a store of objects\<close>

text \<open>
  A tensor is an object: two names may be bound to the same one, and an assignment
  \<open>Y[i, j] = v\<close> changes the object in place. To say what a call changes, the same two
  functions are written on a store, a list of objects addressed by position. A slice
  \<open>X[i:i', j:j']\<close> is a view: it is read from the object \<open>X\<close> at the moment of use. The
  product and the reductions build fresh values that nothing else refers to; they are
  kept as values. A call returns the address of its result, or the exception, together
  with the store it leaves.
\<close>

type_synonym store = "tensor2 list"

definition st_get :: "store \<Rightarrow> nat \<Rightarrow> error + tensor2" where
  "st_get s a = (if a < length s then Inr (s ! a) else Inl BadReference)"

definition st_alloc :: "store \<Rightarrow> tensor2 \<Rightarrow> nat \<times> store" where
  "st_alloc s T = (length s, s @ [T])"

definition st_setitem :: "store \<Rightarrow> nat \<Rightarrow> nat \<Rightarrow> nat \<Rightarrow> tscalar \<Rightarrow> error option \<times> store" where
  "st_setitem s a i j v =
     (case st_get s a of
        Inl e \<Rightarrow> (Some e, s)
      | Inr Y \<Rightarrow> (case setitem2 Y i j v of
                   Inl e \<Rightarrow> (Some e, s)
                 | Inr Y' \<Rightarrow> (None, s[a := Y'])))"

fun for_each_st ::
  "'a list \<Rightarrow> ('a \<Rightarrow> store \<Rightarrow> error option \<times> store) \<Rightarrow> store \<Rightarrow> error option \<times> store" where
  "for_each_st [] body s = (None, s)"
| "for_each_st (x # xs) body s =
     (case body x s of (Some e, s') \<Rightarrow> (Some e, s') | (None, s') \<Rightarrow> for_each_st xs body s')"

definition pool2d_cell_st ::
  "nat \<Rightarrow> nat \<Rightarrow> nat \<Rightarrow> nat \<Rightarrow> string \<Rightarrow> nat \<Rightarrow> nat \<Rightarrow> store \<Rightarrow> error option \<times> store" where
  "pool2d_cell_st aX aY p_h p_w mode i j s =
     (case st_get s aX of
        Inl e \<Rightarrow> (Some e, s)
      | Inr X \<Rightarrow>
          if mode = ''max'' then
            (case tmax (slice2 X i (i + p_h) j (j + p_w)) of
               Inl e \<Rightarrow> (Some e, s) | Inr v \<Rightarrow> st_setitem s aY i j v)
          else if mode = ''avg'' then
            (case tmean (slice2 X i (i + p_h) j (j + p_w)) of
               Inl e \<Rightarrow> (Some e, s) | Inr v \<Rightarrow> st_setitem s aY i j v)
          else (None, s))"

definition pool2d_st :: "store \<Rightarrow> nat \<Rightarrow> nat \<times> nat \<Rightarrow> string \<Rightarrow> (error + nat) \<times> store" where
  "pool2d_st s aX pool_size mode =
     (case pool_size of (p_h, p_w) \<Rightarrow>
        (case st_get s aX of
           Inl e \<Rightarrow> (Inl e, s)
         | Inr X \<Rightarrow>
             (case zeros2 (int (fst (shape X)) - int p_h + 1) (int (snd (shape X)) - int p_w + 1) of
                Inl e \<Rightarrow> (Inl e, s)
              | Inr Y \<Rightarrow>
                  (case st_alloc s Y of (aY, s1) \<Rightarrow>
                     (case for_each_st (py_range (fst (shape Y))) (\<lambda>i s.
                             (case st_get s aY of
                                Inl e \<Rightarrow> (Some e, s)
                              | Inr Y \<Rightarrow>
                                  for_each_st (py_range (snd (shape Y))) (\<lambda>j s.
                                    pool2d_cell_st aX aY p_h p_w mode i j s) s)) s1 of
                        (Some e, s') \<Rightarrow> (Inl e, s')
                      | (None, s') \<Rightarrow> (Inr aY, s'))))))"

definition corr2d_cell_st ::
  "nat \<Rightarrow> nat \<Rightarrow> nat \<Rightarrow> nat \<Rightarrow> nat \<Rightarrow> nat \<Rightarrow> nat \<Rightarrow> store \<Rightarrow> error option \<times> store" where
  "corr2d_cell_st aX aK aY h w i j s =
     (case st_get s aX of
        Inl e \<Rightarrow> (Some e, s)
      | Inr X \<Rightarrow>
          (case st_get s aK of
             Inl e \<Rightarrow> (Some e, s)
           | Inr K \<Rightarrow>
               (case tmul (slice2 X i (i + h) j (j + w)) K of
                  Inl e \<Rightarrow> (Some e, s) | Inr P \<Rightarrow> st_setitem s aY i j (tsum P))))"

definition corr2d_st :: "store \<Rightarrow> nat \<Rightarrow> nat \<Rightarrow> (error + nat) \<times> store" where
  "corr2d_st s aX aK =
     (case st_get s aK of
        Inl e \<Rightarrow> (Inl e, s)
      | Inr K \<Rightarrow>
          (case shape K of (h, w) \<Rightarrow>
             (case st_get s aX of
                Inl e \<Rightarrow> (Inl e, s)
              | Inr X \<Rightarrow>
                  (case zeros2 (int (fst (shape X)) - int h + 1) (int (snd (shape X)) - int w + 1) of
                     Inl e \<Rightarrow> (Inl e, s)
                   | Inr Y \<Rightarrow>
                       (case st_alloc s Y of (aY, s1) \<Rightarrow>
                          (case for_each_st (py_range (fst (shape Y))) (\<lambda>i s.
                                  (case st_get s aY of
                                     Inl e \<Rightarrow> (Some e, s)
                                   | Inr Y \<Rightarrow>
                                       for_each_st (py_range (snd (shape Y))) (\<lambda>j s.
                                         corr2d_cell_st aX aK aY h w i j s) s)) s1 of
                             (Some e, s') \<Rightarrow> (Inl e, s')
                           | (None, s') \<Rightarrow> (Inr aY, s')))))))"

section \<open>The shape law of the specification and the example grids\<close>

text \<open>The specification's law for one axis of the output: \<open>floor((n - k) / s) + 1\<close>, for a
  window that fits (\<open>k \<le> n\<close>).\<close>

definition spec_out_dim :: "nat \<Rightarrow> nat \<Rightarrow> nat \<Rightarrow> nat" where
  "spec_out_dim n k s = (n - k) div s + 1"

definition float_grid :: "nat \<Rightarrow> nat \<Rightarrow> real list \<Rightarrow> tensor2" where
  "float_grid h w xs = \<lparr>shape = (h, w), dtype = Float32, data = map Fin xs\<rparr>"

definition int_grid :: "nat \<Rightarrow> nat \<Rightarrow> int list \<Rightarrow> tensor2" where
  "int_grid h w xs = \<lparr>shape = (h, w), dtype = Int64, data = map (\<lambda>x. Fin (of_int x)) xs\<rparr>"

definition float_stack :: "nat \<Rightarrow> nat \<Rightarrow> nat \<Rightarrow> real list \<Rightarrow> tensor3" where
  "float_stack c h w xs = \<lparr>shape = (c, h, w), dtype = Float32, data = map Fin xs\<rparr>"

definition int_stack :: "nat \<Rightarrow> nat \<Rightarrow> nat \<Rightarrow> int list \<Rightarrow> tensor3" where
  "int_stack c h w xs = \<lparr>shape = (c, h, w), dtype = Int64, data = map (\<lambda>x. Fin (of_int x)) xs\<rparr>"

definition float_kernels :: "nat \<Rightarrow> nat \<Rightarrow> nat \<Rightarrow> nat \<Rightarrow> real list \<Rightarrow> tensor4" where
  "float_kernels n c h w xs = \<lparr>shape = (n, c, h, w), dtype = Float32, data = map Fin xs\<rparr>"

text \<open>A matrix of shape \<open>(H, W)\<close> whose elements are the real numbers \<open>xs\<close>.\<close>

definition is_grid :: "tensor2 \<Rightarrow> nat \<Rightarrow> nat \<Rightarrow> real list \<Rightarrow> bool" where
  "is_grid X H W xs \<longleftrightarrow> shape X = (H, W) \<and> data X = map Fin xs \<and> length xs = H * W"

text \<open>An integer of magnitude at most \<open>2^24\<close>: every such number is a 32-bit float and a
  64-bit integer.\<close>

definition small_int :: "real \<Rightarrow> bool" where
  "small_int x \<longleftrightarrow> of_int \<lfloor>x\<rfloor> = x \<and> \<bar>x\<bar> \<le> 2 ^ 24"

text \<open>A value that rounding to a 32-bit float leaves as it is.\<close>

definition is_f32 :: "scalar \<Rightarrow> bool" where
  "is_f32 v = (case v of Fin y \<Rightarrow> f32_round y = Fin y | PInf \<Rightarrow> True | NInf \<Rightarrow> True | NaN \<Rightarrow> True)"

section \<open>Properties\<close>

subsection \<open>Rounding to a 32-bit float\<close>

lemma round_half_even_int [simp]: "round_half_even (of_int n) = n"
  by (simp add: round_half_even_def)

lemma round_half_even_bounds:
  "of_int \<lfloor>x\<rfloor> \<le> (of_int (round_half_even x) :: real)"
  "round_half_even x \<le> \<lfloor>x\<rfloor> + 1"
  by (simp_all add: round_half_even_def Let_def)

lemma round_half_even_le: "x \<le> of_int b \<Longrightarrow> round_half_even x \<le> b"
proof -
  assume x: "x \<le> of_int b"
  show ?thesis
  proof (cases "x = of_int b")
    case True
    then show ?thesis by simp
  next
    case False
    then have "x < of_int b" using x by simp
    then have "\<lfloor>x\<rfloor> < b" by (simp add: floor_less_iff)
    then show ?thesis using round_half_even_bounds(2) [of x] by simp
  qed
qed

lemma round_half_even_ge: "of_int a \<le> x \<Longrightarrow> a \<le> round_half_even x"
proof -
  assume "of_int a \<le> x"
  then have "a \<le> \<lfloor>x\<rfloor>" by (simp add: le_floor_iff)
  moreover have "\<lfloor>x\<rfloor> \<le> round_half_even x" by (simp add: round_half_even_def Let_def)
  ultimately show ?thesis by simp
qed

lemma exp_down_ge1: "1 \<le> b \<Longrightarrow> exp_down n b e = e"
  by (cases n) simp_all

lemma exp_up_props:
  "1 \<le> a \<Longrightarrow>
     e \<le> exp_up n a e \<and> exp_up n a e \<le> e + int n
     \<and> 2 powi (exp_up n a e - e) \<le> a
     \<and> (a < 2 powi (int n + 1) \<longrightarrow> a < 2 powi (exp_up n a e - e + 1))"
proof (induction n arbitrary: a e)
  case 0
  then show ?case by simp
next
  case (Suc n)
  show ?case
  proof (cases "2 \<le> a")
    case True
    let ?E = "exp_up n (a / 2) (e + 1)"
    have h: "1 \<le> a / 2" using True by simp
    note IH = Suc.IH [OF h, of "e + 1"]
    have p1: "2 powi (?E - e) = 2 * (2::real) powi (?E - (e + 1))"
      using power_int_add_1 [of "2::real" "?E - (e + 1)"] by (simp add: algebra_simps)
    have p2: "2 powi (?E - e + 1) = 2 * (2::real) powi (?E - (e + 1) + 1)"
      using power_int_add_1 [of "2::real" "?E - (e + 1) + 1"] by (simp add: algebra_simps)
    have p3: "2 powi (int (Suc n) + 1) = 2 * (2::real) powi (int n + 1)"
      using power_int_add_1 [of "2::real" "int n + 1"] by (simp add: algebra_simps)
    have "e \<le> ?E" "?E \<le> e + int (Suc n)" using IH by simp_all
    moreover have "2 powi (?E - e) \<le> a" using IH unfolding p1 by simp
    moreover have "a < 2 powi (int (Suc n) + 1) \<longrightarrow> a < 2 powi (?E - e + 1)"
      using IH unfolding p2 p3 by auto
    ultimately show ?thesis using True by simp
  next
    case False
    then show ?thesis using Suc.prems by simp
  qed
qed

lemma exp_down_props:
  "0 < a \<Longrightarrow> a < 1 \<Longrightarrow> 2 powi (- int n) \<le> a \<Longrightarrow>
     e - int n \<le> exp_down n a e \<and> exp_down n a e \<le> e
     \<and> 2 powi (exp_down n a e - e) \<le> a \<and> a < 2 powi (exp_down n a e - e + 1)"
proof (induction n arbitrary: a e)
  case 0
  then show ?case by simp
next
  case (Suc n)
  show ?case
  proof (cases "2 * a < 1")
    case True
    let ?E = "exp_down n (2 * a) (e - 1)"
    have "2 powi (- int (Suc n)) = (2::real) powi (- int n) / 2"
      using power_int_add_1 [of "2::real" "- int (Suc n)"] by (simp add: algebra_simps)
    then have h: "2 powi (- int n) \<le> 2 * a" using Suc.prems(3) by simp
    have pos: "0 < 2 * a" using Suc.prems(1) by simp
    note IH = Suc.IH [OF pos True h, of "e - 1"]
    have p1: "(2::real) powi (?E - (e - 1)) = 2 * 2 powi (?E - e)"
      using power_int_add_1 [of "2::real" "?E - e"] by (simp add: algebra_simps)
    have p2: "(2::real) powi (?E - (e - 1) + 1) = 2 * 2 powi (?E - e + 1)"
      using power_int_add_1 [of "2::real" "?E - e + 1"] by (simp add: algebra_simps)
    have "e - int (Suc n) \<le> ?E" "?E \<le> e" using IH by simp_all
    moreover have "2 powi (?E - e) \<le> a" "a < 2 powi (?E - e + 1)"
      using IH unfolding p1 p2 by simp_all
    ultimately show ?thesis using Suc.prems(2) by simp
  next
    case False
    then have "exp_down n (2 * a) (e - 1) = e - 1" by (simp add: exp_down_ge1)
    moreover have "(2::real) powi (- 1) = 1 / 2" by (simp add: power_int_minus_divide)
    ultimately show ?thesis using Suc.prems(2) False by simp
  qed
qed

lemma f32_exponent_range: "- 126 \<le> f32_exponent x \<and> f32_exponent x \<le> 127"
proof -
  consider "\<bar>x\<bar> < 2 powi (- 126)" | "\<not> \<bar>x\<bar> < 2 powi (- 126)" "1 \<le> \<bar>x\<bar>"
    | "\<not> \<bar>x\<bar> < 2 powi (- 126)" "\<not> 1 \<le> \<bar>x\<bar>" by blast
  then show ?thesis
  proof cases
    case 1
    then show ?thesis by (simp add: f32_exponent_def)
  next
    case 2
    then show ?thesis using exp_up_props [OF 2(2), of 0 127] by (simp add: f32_exponent_def)
  next
    case 3
    have "0 < \<bar>x\<bar>" using 3(1) by (smt (verit) zero_less_power_int)
    then show ?thesis using exp_down_props [of "\<bar>x\<bar>" 126 0] 3 by (simp add: f32_exponent_def)
  qed
qed

lemma f32_exponent_small: "\<bar>x\<bar> < 2 powi (- 126) \<Longrightarrow> f32_exponent x = - 126"
  by (simp add: f32_exponent_def)

lemma f32_exponent_lower: "2 powi (- 126) \<le> \<bar>x\<bar> \<Longrightarrow> 2 powi (f32_exponent x) \<le> \<bar>x\<bar>"
proof -
  assume a: "2 powi (- 126) \<le> \<bar>x\<bar>"
  show ?thesis
  proof (cases "1 \<le> \<bar>x\<bar>")
    case True
    then show ?thesis using a exp_up_props [OF True, of 0 127] by (simp add: f32_exponent_def)
  next
    case False
    have "0 < \<bar>x\<bar>" using a by (smt (verit) zero_less_power_int)
    then show ?thesis using a False exp_down_props [of "\<bar>x\<bar>" 126 0] by (simp add: f32_exponent_def)
  qed
qed

lemma f32_exponent_upper: "\<bar>x\<bar> < 2 powi 128 \<Longrightarrow> \<bar>x\<bar> < 2 powi (f32_exponent x + 1)"
proof -
  assume a: "\<bar>x\<bar> < 2 powi 128"
  consider "\<bar>x\<bar> < 2 powi (- 126)" | "\<not> \<bar>x\<bar> < 2 powi (- 126)" "1 \<le> \<bar>x\<bar>"
    | "\<not> \<bar>x\<bar> < 2 powi (- 126)" "\<not> 1 \<le> \<bar>x\<bar>" by blast
  then show ?thesis
  proof cases
    case 1
    have "(2::real) powi (- 126) \<le> 2 powi (- 126 + 1)"
      by (intro power_int_increasing) simp_all
    then show ?thesis using 1 by (simp add: f32_exponent_def)
  next
    case 2
    have "\<bar>x\<bar> < 2 powi (int 127 + 1)" using a by simp
    then show ?thesis using exp_up_props [OF 2(2), of 0 127] 2 by (simp add: f32_exponent_def)
  next
    case 3
    have "0 < \<bar>x\<bar>" using 3(1) by (smt (verit) zero_less_power_int)
    then show ?thesis using exp_down_props [of "\<bar>x\<bar>" 126 0] 3 by (simp add: f32_exponent_def)
  qed
qed


lemma f32_round_exact:
  assumes x: "x = of_int m * 2 powi k" and m: "\<bar>m\<bar> < 2 ^ 24" and k: "- 149 \<le> k"
    and fin: "\<bar>x\<bar> < 2 powi 128"
  shows "f32_round x = Fin x"
proof -
  define E where "E = f32_exponent x"
  have le: "E \<le> k + 23"
  proof (cases "\<bar>x\<bar> < 2 powi (- 126)")
    case True
    then show ?thesis using k by (simp add: E_def f32_exponent_small)
  next
    case False
    then have "2 powi E \<le> \<bar>x\<bar>" unfolding E_def by (intro f32_exponent_lower) simp
    also have "\<bar>x\<bar> = of_int \<bar>m\<bar> * 2 powi k" by (simp add: x abs_mult)
    also have "\<dots> < 2 ^ 24 * 2 powi k"
    proof (rule mult_strict_right_mono)
      have "real_of_int \<bar>m\<bar> < real_of_int (2 ^ 24)" using m by (simp only: of_int_less_iff)
      then show "real_of_int \<bar>m\<bar> < 2 ^ 24" by simp
    qed simp
    also have "\<dots> = 2 powi (k + 24)" by (simp add: power_int_add)
    finally have "(2::real) powi E < 2 powi (k + 24)" .
    then have "E < k + 24"
      by (smt (verit) power_int_increasing)
    then show ?thesis by simp
  qed
  define d where "d = nat (k - E + 23)"
  have kd: "int d + (E - 23) = k" using le by (simp add: d_def)
  have "(2::real) powi (int d + (E - 23)) = 2 ^ d * 2 powi (E - 23)"
    by (subst power_int_add) simp_all
  then have pk: "(2::real) powi k = 2 ^ d * 2 powi (E - 23)" unfolding kd .
  have xq: "x = of_int (m * 2 ^ d) * 2 powi (E - 23)"
    unfolding x pk by simp
  have "x / 2 powi (E - 23) = of_int (m * 2 ^ d)"
    by (subst xq) simp
  then have r: "round_half_even (x / 2 powi (E - 23)) = m * 2 ^ d"
    by (simp only: round_half_even_int)
  have y: "of_int (m * 2 ^ d) * 2 powi (E - 23) = x"
    by (simp only: xq [symmetric])
  show ?thesis
    unfolding f32_round_def Let_def E_def [symmetric] r y using fin by simp
qed

lemma f32_round_repr:
  assumes "f32_round x = Fin y"
  shows "\<exists>m k. y = of_int m * 2 powi k \<and> \<bar>m\<bar> < 2 ^ 24 \<and> - 149 \<le> k \<and> \<bar>y\<bar> < 2 powi 128"
proof -
  let ?E = "f32_exponent x"
  let ?q = "(2::real) powi (?E - 23)"
  let ?n = "round_half_even (x / ?q)"
  have q: "0 < ?q" by simp
  have y: "y = of_int ?n * ?q" and fin: "\<bar>y\<bar> < 2 powi 128"
    using assms by (simp_all add: f32_round_def Let_def split: if_splits)
  have E: "- 126 \<le> ?E" "?E \<le> 127" using f32_exponent_range [of x] by simp_all
  have xfin: "\<bar>x\<bar> < 2 powi 128"
  proof (rule ccontr)
    assume "\<not> \<bar>x\<bar> < 2 powi 128"
    then have big: "2 powi 128 \<le> \<bar>x\<bar>" by simp
    define d where "d = nat (151 - ?E)"
    have "(2::real) powi 128 = 2 ^ d * ?q"
    proof -
      have i: "int d + (?E - 23) = 128" using E by (simp add: d_def)
      have "(2::real) powi (int d + (?E - 23)) = 2 ^ d * ?q"
        by (subst power_int_add) simp_all
      then show ?thesis unfolding i .
    qed
    then have "2 ^ d \<le> \<bar>x\<bar> / ?q" using big q by (simp add: field_simps)
    then have "2 ^ d \<le> \<bar>x / ?q\<bar>" using q by (simp add: abs_divide)
    then have "2 ^ d \<le> x / ?q \<or> x / ?q \<le> - (2 ^ d)" by linarith
    then have "of_int (2 ^ d) \<le> x / ?q \<or> x / ?q \<le> of_int (- (2 ^ d))" by simp
    then have "2 ^ d \<le> ?n \<or> ?n \<le> - (2 ^ d)"
      using round_half_even_ge [of "2 ^ d" "x / ?q"] round_half_even_le [of "x / ?q" "- (2 ^ d)"] by blast
    then have "2 ^ d \<le> \<bar>?n\<bar>" by linarith
    then have "(2 ^ d :: real) \<le> \<bar>of_int ?n\<bar>"
      by (metis of_int_abs of_int_le_iff of_int_numeral of_int_power)
    then have "2 ^ d * ?q \<le> \<bar>of_int ?n\<bar> * ?q" using q by (intro mult_right_mono) simp_all
    also have "\<bar>of_int ?n\<bar> * ?q = \<bar>y\<bar>" using q by (simp add: y abs_mult)
    finally have "2 ^ d * ?q \<le> \<bar>y\<bar>" .
    then have "2 powi 128 \<le> \<bar>y\<bar>"
      by (simp only: \<open>(2::real) powi 128 = 2 ^ d * ?q\<close>)
    then show False using fin by simp
  qed
  have "\<bar>x\<bar> < 2 powi (?E + 1)" by (rule f32_exponent_upper [OF xfin])
  also have "(2::real) powi (?E + 1) = 2 ^ 24 * ?q"
  proof -
    have i: "24 + (?E - 23) = ?E + 1" by simp
    have "(2::real) powi (24 + (?E - 23)) = 2 powi 24 * ?q"
      by (subst power_int_add) simp_all
    then show ?thesis unfolding i by simp
  qed
  finally have "\<bar>x\<bar> / ?q < 2 ^ 24" using q by (simp add: field_simps)
  then have "\<bar>x / ?q\<bar> < 2 ^ 24" using q by (simp add: abs_divide)
  then have "x / ?q \<le> 2 ^ 24" "- (2 ^ 24) \<le> x / ?q" by linarith+
  then have "x / ?q \<le> of_int (2 ^ 24)" "of_int (- (2 ^ 24)) \<le> x / ?q" by simp_all
  then have n: "?n \<le> 2 ^ 24" "- (2 ^ 24) \<le> ?n"
    using round_half_even_le [of "x / ?q" "2 ^ 24"] round_half_even_ge [of "- (2 ^ 24)" "x / ?q"] by blast+
  have q2: "(2::real) powi (?E - 22) = 2 * ?q"
    using power_int_add_1 [of "2::real" "?E - 23"] by (simp add: algebra_simps)
  consider "?n = 2 ^ 24" | "?n = - (2 ^ 24)" | "\<bar>?n\<bar> < 2 ^ 24" using n by linarith
  then show ?thesis
  proof cases
    case 1
    have "y = of_int (2 ^ 23) * 2 powi (?E - 22)" unfolding y 1 q2 by simp
    moreover have "\<bar>2 ^ 23 :: int\<bar> < 2 ^ 24" by simp
    moreover have "- 149 \<le> ?E - 22" using E by simp
    ultimately show ?thesis using fin by blast
  next
    case 2
    have "y = of_int (- (2 ^ 23)) * 2 powi (?E - 22)" unfolding y 2 q2 by simp
    moreover have "\<bar>- (2 ^ 23) :: int\<bar> < 2 ^ 24" by simp
    moreover have "- 149 \<le> ?E - 22" using E by simp
    ultimately show ?thesis using fin by blast
  next
    case 3
    have "- 149 \<le> ?E - 23" using E by simp
    then show ?thesis using y fin 3 by blast
  qed
qed

lemma f32_round_idem: "f32_round x = Fin y \<Longrightarrow> f32_round y = Fin y"
  using f32_round_repr [of x y] f32_round_exact by blast

lemma f32_round_int:
  assumes "\<bar>n\<bar> \<le> 2 ^ 24"
  shows "f32_round (of_int n) = Fin (of_int n)"
proof -
  have fin: "\<bar>of_int n :: real\<bar> < 2 powi 128"
  proof -
    have "\<bar>of_int n :: real\<bar> \<le> 2 ^ 24"
      using assms by (metis of_int_abs of_int_le_iff of_int_numeral of_int_power)
    also have "\<dots> < (2::real) powi 128" by simp
    finally show ?thesis .
  qed
  consider "n = 2 ^ 24" | "n = - (2 ^ 24)" | "\<bar>n\<bar> < 2 ^ 24" using assms by linarith
  then show ?thesis
  proof cases
    case 1
    have "of_int n = of_int (2 ^ 23) * (2::real) powi 1" by (simp add: 1)
    then show ?thesis using fin by (intro f32_round_exact [where m = "2 ^ 23" and k = 1]) simp_all
  next
    case 2
    have "of_int n = of_int (- (2 ^ 23)) * (2::real) powi 1" by (simp add: 2)
    then show ?thesis using fin by (intro f32_round_exact [where m = "- (2 ^ 23)" and k = 1]) simp_all
  next
    case 3
    have "of_int n = of_int n * (2::real) powi 0" by simp
    then show ?thesis using fin 3 by (intro f32_round_exact [where m = n and k = 0]) simp_all
  qed
qed

subsection \<open>Values that are floats, and arithmetic that is exact\<close>

lemma f32_round_code [code]:
  "f32_round x =
     (if of_int \<lfloor>x\<rfloor> = x \<and> \<bar>x\<bar> \<le> 16777216 then Fin x
      else let q = 2 powi (f32_exponent x - 23);
               y = of_int (round_half_even (x / q)) * q in
           if 2 powi 128 \<le> \<bar>y\<bar> then (if 0 < x then PInf else NInf) else Fin y)"
proof (cases "of_int \<lfloor>x\<rfloor> = x \<and> \<bar>x\<bar> \<le> 16777216")
  case True
  then have x: "of_int \<lfloor>x\<rfloor> = x" and b: "\<bar>x\<bar> \<le> 16777216" by blast+
  have "\<bar>of_int \<lfloor>x\<rfloor> :: real\<bar> \<le> of_int (2 ^ 24)" unfolding x using b by simp
  then have "\<bar>\<lfloor>x\<rfloor>\<bar> \<le> 2 ^ 24" by (simp only: of_int_abs [symmetric] of_int_le_iff)
  then have "f32_round (of_int \<lfloor>x\<rfloor>) = Fin (of_int \<lfloor>x\<rfloor>)" by (rule f32_round_int)
  then have "f32_round x = Fin x" unfolding x .
  then show ?thesis using True by (simp del: of_int_floor_cancel)
next
  case False
  then show ?thesis unfolding f32_round_def by (simp only: if_False)
qed

lemma small_int_round: "small_int x \<Longrightarrow> f32_round x = Fin x"
  using f32_round_code [of x] by (simp add: small_int_def)

lemma small_int_zero [simp]: "small_int 0"
  by (simp add: small_int_def)




lemma is_f32_round [simp]: "is_f32 (f32_round x)"
  by (cases "f32_round x") (simp_all add: is_f32_def f32_round_idem)

lemma is_f32_zero [simp]: "is_f32 (Fin 0)"
  by (simp add: is_f32_def small_int_round)

lemma is_f32_fadd [simp]: "is_f32 (fadd a b)"
  by (cases a; cases b) (simp_all add: is_f32_def [of PInf] is_f32_def [of NInf] is_f32_def [of NaN])

lemma is_f32_fmul [simp]: "is_f32 (fmul a b)"
  by (cases a; cases b) (simp_all add: is_f32_def [of PInf] is_f32_def [of NInf] is_f32_def [of NaN])

lemma is_f32_to_float32_int [simp]: "is_f32 (to_float32 Int64 v)"
  by (cases v) (simp_all add: to_float32_def is_f32_def [of PInf] is_f32_def [of NInf] is_f32_def [of NaN])

lemma fadd_zero: "is_f32 t \<Longrightarrow> fadd t (Fin 0) = t" "is_f32 t \<Longrightarrow> fadd (Fin 0) t = t"
  by (cases t; simp add: is_f32_def)+

lemma is_f32_foldl_fadd: "is_f32 a \<Longrightarrow> is_f32 (foldl fadd a ts)"
  by (induction ts arbitrary: a) simp_all

lemma fadd_commute: "fadd a b = fadd b a"
  by (cases a; cases b) (simp_all add: add.commute)

lemma fmul_commute: "fmul a b = fmul b a"
  by (cases a; cases b) (auto simp: mult.commute)



lemma to_float32_small: "small_int a \<Longrightarrow> to_float32 d (Fin a) = Fin a"
  by (cases d) (simp_all add: to_float32_def small_int_round)


subsection \<open>Filling a matrix by two nested loops\<close>

lemma length_tabulate2 [simp]: "length (tabulate2 h w f) = h * w"
  by (simp add: tabulate2_def)

lemma nth_tabulate2: "r < h \<Longrightarrow> c < w \<Longrightarrow> tabulate2 h w f ! (r * w + c) = f r c"
proof -
  assume r: "r < h" and c: "c < w"
  have "r * w + c < Suc r * w" using c by simp
  also have "\<dots> \<le> h * w" using r by (simp add: Suc_leI mult_le_mono1 del: mult_Suc)
  finally have "r * w + c < h * w" .
  then show ?thesis using c by (simp add: tabulate2_def)
qed

lemma for_each_append:
  "for_each (xs @ ys) body s =
     (case for_each xs body s of Inl e \<Rightarrow> Inl e | Inr s' \<Rightarrow> for_each ys body s')"
  by (induction xs arbitrary: s) (auto split: sum.splits)

lemma fill_row:
  assumes sh: "shape Y = (h, w)" and len: "length (data Y) = h * w" and i: "i < h"
    and body: "\<And>j Y'. j < w \<Longrightarrow> shape Y' = (h, w) \<Longrightarrow> cellop j Y' = setitem2 Y' i j (f j)"
  shows "n \<le> w \<Longrightarrow> for_each [0..<n] cellop Y =
     Inr (Y\<lparr>data := map (\<lambda>k. if i * w \<le> k \<and> k < i * w + n then stored (f (k - i * w)) else data Y ! k) [0..<h * w]\<rparr>)"
proof (induction n)
  case 0
  have "map (\<lambda>k. data Y ! k) [0..<h * w] = data Y"
    using len by (metis map_nth)
  moreover have "(\<lambda>k. if i * w \<le> k \<and> k < i * w + 0 then stored (f (k - i * w)) else data Y ! k) = (\<lambda>k. data Y ! k)"
    by (intro ext) auto
  ultimately show ?case by simp
next
  case (Suc n)
  let ?d = "map (\<lambda>k. if i * w \<le> k \<and> k < i * w + n then stored (f (k - i * w)) else data Y ! k) [0..<h * w]"
  have n: "n < w" using Suc.prems by simp
  have "i * w + n < Suc i * w" using n by simp
  also have "\<dots> \<le> h * w" using i by (simp add: Suc_leI mult_le_mono1 del: mult_Suc)
  finally have idx: "i * w + n < h * w" .
  have upd: "?d[i * w + n := stored (f n)] =
     map (\<lambda>k. if i * w \<le> k \<and> k < i * w + Suc n then stored (f (k - i * w)) else data Y ! k) [0..<h * w]"
  proof (rule nth_equalityI)
    fix k assume "k < length (?d[i * w + n := stored (f n)])"
    then have k: "k < h * w" by simp
    show "?d[i * w + n := stored (f n)] ! k =
      map (\<lambda>k. if i * w \<le> k \<and> k < i * w + Suc n then stored (f (k - i * w)) else data Y ! k) [0..<h * w] ! k"
    proof (cases "k = i * w + n")
      case True
      then show ?thesis using idx by simp
    next
      case False
      then show ?thesis using k by (auto simp: nth_list_update)
    qed
  qed simp
  show ?case
    using Suc.IH n sh i upd
    by (simp add: for_each_append body setitem2_def)
qed

lemma fill_all_aux:
  assumes sh: "shape Y = (h, w)" and len: "length (data Y) = h * w"
    and body: "\<And>i j Y'. i < h \<Longrightarrow> j < w \<Longrightarrow> shape Y' = (h, w) \<Longrightarrow> cellop i j Y' = setitem2 Y' i j (f i j)"
  shows "m \<le> h \<Longrightarrow> for_each [0..<m] (\<lambda>i Y. for_each (py_range (snd (shape Y))) (cellop i) Y) Y =
     Inr (Y\<lparr>data := map (\<lambda>k. if k < m * w then stored (f (k div w) (k mod w)) else data Y ! k) [0..<h * w]\<rparr>)"
proof (induction m)
  case 0
  have "map (\<lambda>k. data Y ! k) [0..<h * w] = data Y"
    using len by (metis map_nth)
  then show ?case by simp
next
  case (Suc m)
  let ?Y = "Y\<lparr>data := map (\<lambda>k. if k < m * w then stored (f (k div w) (k mod w)) else data Y ! k) [0..<h * w]\<rparr>"
  have m: "m < h" using Suc.prems by simp
  have row: "for_each [0..<w] (cellop m) ?Y =
     Inr (?Y\<lparr>data := map (\<lambda>k. if m * w \<le> k \<and> k < m * w + w then stored (f m (k - m * w)) else data ?Y ! k) [0..<h * w]\<rparr>)"
    by (rule fill_row [where h = h]) (simp_all add: sh m body)
  have eq: "map (\<lambda>k. if m * w \<le> k \<and> k < m * w + w then stored (f m (k - m * w)) else data ?Y ! k) [0..<h * w]
      = map (\<lambda>k. if k < Suc m * w then stored (f (k div w) (k mod w)) else data Y ! k) [0..<h * w]"
  proof (rule map_cong [OF refl])
    fix k assume "k \<in> set [0..<h * w]"
    then have k: "k < h * w" by simp
    show "(if m * w \<le> k \<and> k < m * w + w then stored (f m (k - m * w)) else data ?Y ! k)
        = (if k < Suc m * w then stored (f (k div w) (k mod w)) else data Y ! k)"
    proof (cases "m * w \<le> k \<and> k < m * w + w")
      case True
      then have "k div w = m"
        by (intro div_nat_eqI) (simp_all add: mult.commute)
      moreover from this have "k mod w = k - m * w"
        by (metis minus_mult_div_eq_mod mult.commute)
      ultimately show ?thesis using True by simp
    next
      case False
      then show ?thesis using k by auto
    qed
  qed
  show ?case
    using Suc.IH m row eq by (simp add: for_each_append sh py_range_def)
qed

lemma fill_all:
  assumes sh: "shape Y = (h, w)" and len: "length (data Y) = h * w"
    and body: "\<And>i j Y'. i < h \<Longrightarrow> j < w \<Longrightarrow> shape Y' = (h, w) \<Longrightarrow> cellop i j Y' = setitem2 Y' i j (f i j)"
  shows "for_each (py_range h) (\<lambda>i Y. for_each (py_range (snd (shape Y))) (cellop i) Y) Y =
     Inr (Y\<lparr>data := tabulate2 h w (\<lambda>i j. stored (f i j))\<rparr>)"
proof -
  have "for_each [0..<h] (\<lambda>i Y. for_each (py_range (snd (shape Y))) (cellop i) Y) Y =
     Inr (Y\<lparr>data := map (\<lambda>k. if k < h * w then stored (f (k div w) (k mod w)) else data Y ! k) [0..<h * w]\<rparr>)"
    by (rule fill_all_aux [OF sh len]) (simp_all add: body)
  moreover have "map (\<lambda>k. if k < h * w then stored (f (k div w) (k mod w)) else data Y ! k) [0..<h * w]
     = tabulate2 h w (\<lambda>i j. stored (f i j))"
    by (simp add: tabulate2_def)
  ultimately show ?thesis by (simp add: py_range_def)
qed

lemma tabulate2_cong:
  assumes "\<And>r c. r < h \<Longrightarrow> c < w \<Longrightarrow> f r c = g r c"
  shows "tabulate2 h w f = tabulate2 h w g"
  unfolding tabulate2_def
proof (rule map_cong [OF refl])
  fix k assume "k \<in> set [0..<h * w]"
  then have k: "k < h * w" by simp
  then have "0 < w" by (cases w) simp_all
  moreover have "k div w < h" using k by (simp add: less_mult_imp_div_less)
  ultimately show "f (k div w) (k mod w) = g (k div w) (k mod w)"
    by (simp add: assms)
qed

lemma tabulate2_empty [simp]: "tabulate2 0 w f = []" "tabulate2 h 0 f = []"
  by (simp_all add: tabulate2_def)

lemma for_each_skip: "(\<And>x s. body x s = Inr s) \<Longrightarrow> for_each xs body s = Inr s"
  by (induction xs) simp_all

lemma zeros2_fit:
  "kh \<le> Suc H \<Longrightarrow> kw \<le> Suc W \<Longrightarrow>
   zeros2 (int H - int kh + 1) (int W - int kw + 1) =
     Inr \<lparr>shape = (Suc H - kh, Suc W - kw), dtype = Float32,
          data = replicate ((Suc H - kh) * (Suc W - kw)) (Fin 0)\<rparr>"
proof -
  assume a: "kh \<le> Suc H" "kw \<le> Suc W"
  have "nat (int H - int kh + 1) = Suc H - kh" "nat (int W - int kw + 1) = Suc W - kw"
    by linarith+
  moreover have "\<not> int H - int kh + 1 < 0" "\<not> int W - int kw + 1 < 0"
    using a by linarith+
  ultimately show ?thesis by (simp add: zeros2_def)
qed

lemma zeros2_negative:
  "Suc H < kh \<or> Suc W < kw \<Longrightarrow>
   zeros2 (int H - int kh + 1) (int W - int kw + 1) = Inl NegativeDimension"
proof -
  assume "Suc H < kh \<or> Suc W < kw"
  then have "int H - int kh + 1 < 0 \<or> int W - int kw + 1 < 0" by linarith
  then show ?thesis by (simp add: zeros2_def)
qed

lemma slice2_window:
  assumes "shape X = (H, W)" "i + kh \<le> H" "j + kw \<le> W"
  shows "slice2 X i (i + kh) j (j + kw) =
     \<lparr>shape = (kh, kw), dtype = dtype X,
      data = tabulate2 kh kw (\<lambda>r c. data X ! ((i + r) * W + (j + c)))\<rparr>"
proof -
  have "min i H = i" "min (i + kh) H = i + kh" "min j W = j" "min (j + kw) W = j + kw"
    using assms by simp_all
  then show ?thesis using assms(1) by (simp add: slice2_def)
qed

lemma broadcast2_same:
  assumes "shape A = (h, w)" "shape B = (h, w)"
  shows "broadcast2 f A B =
     Inr \<lparr>shape = (h, w), dtype = promote (dtype A) (dtype B),
          data = tabulate2 h w (\<lambda>r c.
            f (promote (dtype A) (dtype B))
              (promoted (dtype A) (promote (dtype A) (dtype B)) (data A ! (r * w + c)))
              (promoted (dtype B) (promote (dtype A) (dtype B)) (data B ! (r * w + c))))\<rparr>"
proof -
  let ?p = "promote (dtype A) (dtype B)"
  have "tabulate2 h w (\<lambda>r c.
          f ?p (promoted (dtype A) ?p (data A ! ((if h = 1 then 0 else r) * w + (if w = 1 then 0 else c))))
               (promoted (dtype B) ?p (data B ! ((if h = 1 then 0 else r) * w + (if w = 1 then 0 else c)))))
      = tabulate2 h w (\<lambda>r c. f ?p (promoted (dtype A) ?p (data A ! (r * w + c)))
                                  (promoted (dtype B) ?p (data B ! (r * w + c))))"
    by (rule tabulate2_cong) auto
  then show ?thesis using assms by (simp add: broadcast2_def bdim_def Let_def)
qed

lemma pool2d_fill:
  assumes sh: "shape X = (H, W)" and fit: "kh \<le> Suc H" "kw \<le> Suc W"
    and cell: "\<And>i j Y'. i < Suc H - kh \<Longrightarrow> j < Suc W - kw \<Longrightarrow> shape Y' = (Suc H - kh, Suc W - kw) \<Longrightarrow>
       pool2d_cell X kh kw mode i j Y' = setitem2 Y' i j (f i j)"
  shows "pool2d X (kh, kw) mode =
     Inr \<lparr>shape = (Suc H - kh, Suc W - kw), dtype = Float32,
          data = tabulate2 (Suc H - kh) (Suc W - kw) (\<lambda>i j. stored (f i j))\<rparr>"
proof -
  let ?Y = "\<lparr>shape = (Suc H - kh, Suc W - kw), dtype = Float32,
          data = replicate ((Suc H - kh) * (Suc W - kw)) (Fin 0)\<rparr>"
  have "for_each (py_range (Suc H - kh)) (\<lambda>i Y. for_each (py_range (snd (shape Y)))
           (pool2d_cell X kh kw mode i) Y) ?Y =
        Inr (?Y\<lparr>data := tabulate2 (Suc H - kh) (Suc W - kw) (\<lambda>i j. stored (f i j))\<rparr>)"
    by (rule fill_all) (simp_all add: cell)
  then show ?thesis
    using sh by (simp add: pool2d_def zeros2_fit [OF fit])
qed

text \<open>The cell \<open>(i, j)\<close> of a cross-correlation, as the code computes it: the products of the
  window with the weights, in the promoted element type, added from the left.\<close>

lemma corr2d_fill:
  assumes sh: "shape X = (H, W)" and shK: "shape K = (kh, kw)" and fit: "kh \<le> Suc H" "kw \<le> Suc W"
  shows "corr2d X K =
     Inr \<lparr>shape = (Suc H - kh, Suc W - kw), dtype = Float32,
          data = tabulate2 (Suc H - kh) (Suc W - kw) (\<lambda>i j.
            to_float32 (promote (dtype X) (dtype K))
              (foldl (sadd (promote (dtype X) (dtype K))) (Fin 0) (tabulate2 kh kw (\<lambda>r c.
                 smul (promote (dtype X) (dtype K))
                   (promoted (dtype X) (promote (dtype X) (dtype K)) (data X ! ((i + r) * W + (j + c))))
                   (promoted (dtype K) (promote (dtype X) (dtype K)) (data K ! (r * kw + c)))))))\<rparr>"
proof -
  let ?p = "promote (dtype X) (dtype K)"
  let ?f = "\<lambda>i j. (?p, foldl (sadd ?p) (Fin 0) (tabulate2 kh kw (\<lambda>r c.
              smul ?p (promoted (dtype X) ?p (data X ! ((i + r) * W + (j + c))))
                      (promoted (dtype K) ?p (data K ! (r * kw + c))))))"
  let ?Y = "\<lparr>shape = (Suc H - kh, Suc W - kw), dtype = Float32,
          data = replicate ((Suc H - kh) * (Suc W - kw)) (Fin 0)\<rparr>"
  have cell: "corr2d_cell X K kh kw i j Y' = setitem2 Y' i j (?f i j)"
    if "i < Suc H - kh" "j < Suc W - kw" for i j Y'
  proof -
    have le: "i + kh \<le> H" "j + kw \<le> W" using that by simp_all
    have "tabulate2 kh kw (\<lambda>r c. smul ?p
              (promoted (dtype X) ?p (tabulate2 kh kw (\<lambda>r c. data X ! ((i + r) * W + (j + c))) ! (r * kw + c)))
              (promoted (dtype K) ?p (data K ! (r * kw + c))))
       = tabulate2 kh kw (\<lambda>r c. smul ?p (promoted (dtype X) ?p (data X ! ((i + r) * W + (j + c))))
                                         (promoted (dtype K) ?p (data K ! (r * kw + c))))"
      by (rule tabulate2_cong) (simp add: nth_tabulate2)
    then show ?thesis
      using shK
      by (simp add: corr2d_cell_def tmul_def slice2_window [OF sh le]
          broadcast2_same [where h = kh and w = kw] tsum_def)
  qed
  have "for_each (py_range (Suc H - kh)) (\<lambda>i Y. for_each (py_range (snd (shape Y)))
           (corr2d_cell X K kh kw i) Y) ?Y =
        Inr (?Y\<lparr>data := tabulate2 (Suc H - kh) (Suc W - kw) (\<lambda>i j. stored (?f i j))\<rparr>)"
    by (rule fill_all) (simp_all add: cell)
  then show ?thesis
    using sh shK by (simp add: corr2d_def zeros2_fit [OF fit] stored_def)
qed

lemma pool2d_other_mode:
  assumes sh: "shape X = (H, W)" and fit: "kh \<le> Suc H" "kw \<le> Suc W"
    and mode: "mode \<noteq> ''max''" "mode \<noteq> ''avg''"
  shows "pool2d X (kh, kw) mode =
     Inr \<lparr>shape = (Suc H - kh, Suc W - kw), dtype = Float32,
          data = replicate ((Suc H - kh) * (Suc W - kw)) (Fin 0)\<rparr>"
proof -
  have "for_each xs (\<lambda>i Y. for_each (py_range (snd (shape Y))) (\<lambda>j Y. pool2d_cell X kh kw mode i j Y) Y) Y = Inr Y" for xs Y
    by (intro for_each_skip) (simp add: pool2d_cell_def mode)
  then show ?thesis
    using sh by (simp add: pool2d_def zeros2_fit [OF fit])
qed

subsection \<open>What a call of \<open>pool2d\<close> returns\<close>

lemma tmax_window:
  assumes "shape X = (H, W)" "i + kh \<le> H" "j + kw \<le> W" "0 < kh" "0 < kw"
  shows "tmax (slice2 X i (i + kh) j (j + kw)) =
     Inr (dtype X, foldl smax (hd (tabulate2 kh kw (\<lambda>r c. data X ! ((i + r) * W + (j + c)))))
                     (tl (tabulate2 kh kw (\<lambda>r c. data X ! ((i + r) * W + (j + c))))))"
  using assms(4,5) by (simp add: slice2_window [OF assms(1-3)] tmax_def numel2_def)

lemma tmean_window:
  assumes "shape X = (H, W)" "i + kh \<le> H" "j + kw \<le> W" "dtype X = Float32"
  shows "tmean (slice2 X i (i + kh) j (j + kw)) =
     Inr (Float32, fdiv (foldl fadd (Fin 0) (tabulate2 kh kw (\<lambda>r c. data X ! ((i + r) * W + (j + c)))))
                        (f32_round (real (kh * kw))))"
  using assms(4) by (simp add: slice2_window [OF assms(1-3)] tmean_def numel2_def)

text \<open>The maximum of a window is stored as a float: an integer is converted.\<close>

lemma pool2d_max_fill:
  assumes sh: "shape X = (H, W)" and fit: "kh \<le> Suc H" "kw \<le> Suc W" and pos: "0 < kh" "0 < kw"
  shows "pool2d X (kh, kw) ''max'' =
     Inr \<lparr>shape = (Suc H - kh, Suc W - kw), dtype = Float32,
          data = tabulate2 (Suc H - kh) (Suc W - kw) (\<lambda>i j. to_float32 (dtype X)
            (foldl smax (hd (tabulate2 kh kw (\<lambda>r c. data X ! ((i + r) * W + (j + c)))))
                        (tl (tabulate2 kh kw (\<lambda>r c. data X ! ((i + r) * W + (j + c)))))))\<rparr>"
proof -
  let ?f = "\<lambda>i j. (dtype X,
     foldl smax (hd (tabulate2 kh kw (\<lambda>r c. data X ! ((i + r) * W + (j + c)))))
                (tl (tabulate2 kh kw (\<lambda>r c. data X ! ((i + r) * W + (j + c))))))"
  have "pool2d X (kh, kw) ''max'' =
     Inr \<lparr>shape = (Suc H - kh, Suc W - kw), dtype = Float32,
          data = tabulate2 (Suc H - kh) (Suc W - kw) (\<lambda>i j. stored (?f i j))\<rparr>"
  proof (rule pool2d_fill [OF sh fit])
    fix i j Y'
    assume "i < Suc H - kh" "j < Suc W - kw"
    then have le: "i + kh \<le> H" "j + kw \<le> W" by simp_all
    show "pool2d_cell X kh kw ''max'' i j Y' = setitem2 Y' i j (?f i j)"
      by (simp add: pool2d_cell_def tmax_window [OF sh le pos])
  qed
  then show ?thesis by (simp add: stored_def)
qed

lemma pool2d_avg_fill:
  assumes sh: "shape X = (H, W)" and fit: "kh \<le> Suc H" "kw \<le> Suc W" and fl: "dtype X = Float32"
  shows "pool2d X (kh, kw) ''avg'' =
     Inr \<lparr>shape = (Suc H - kh, Suc W - kw), dtype = Float32,
          data = tabulate2 (Suc H - kh) (Suc W - kw) (\<lambda>i j.
            fdiv (foldl fadd (Fin 0) (tabulate2 kh kw (\<lambda>r c. data X ! ((i + r) * W + (j + c)))))
                 (f32_round (real (kh * kw))))\<rparr>"
proof -
  let ?f = "\<lambda>i j. (Float32,
     fdiv (foldl fadd (Fin 0) (tabulate2 kh kw (\<lambda>r c. data X ! ((i + r) * W + (j + c)))))
          (f32_round (real (kh * kw))))"
  have "pool2d X (kh, kw) ''avg'' =
     Inr \<lparr>shape = (Suc H - kh, Suc W - kw), dtype = Float32,
          data = tabulate2 (Suc H - kh) (Suc W - kw) (\<lambda>i j. stored (?f i j))\<rparr>"
  proof (rule pool2d_fill [OF sh fit])
    fix i j Y'
    assume "i < Suc H - kh" "j < Suc W - kw"
    then have le: "i + kh \<le> H" "j + kw \<le> W" by simp_all
    show "pool2d_cell X kh kw ''avg'' i j Y' = setitem2 Y' i j (?f i j)"
      by (simp add: pool2d_cell_def tmean_window [OF sh le fl])
  qed
  then show ?thesis by (simp add: stored_def to_float32_def)
qed

lemma pool2d_shape:
  assumes sh: "shape X = (H, W)" and fit: "kh \<le> Suc H" "kw \<le> Suc W" and pos: "0 < kh" "0 < kw"
    and fl: "mode = ''avg'' \<longrightarrow> dtype X = Float32"
  shows "\<exists>d. pool2d X (kh, kw) mode = Inr \<lparr>shape = (Suc H - kh, Suc W - kw), dtype = Float32, data = d\<rparr>
           \<and> length d = (Suc H - kh) * (Suc W - kw)"
proof -
  consider "mode = ''max''" | "mode = ''avg''" | "mode \<noteq> ''max''" "mode \<noteq> ''avg''" by blast
  then show ?thesis
  proof cases
    case 1
    then show ?thesis using pool2d_max_fill [OF sh fit pos] by simp
  next
    case 2
    then show ?thesis using pool2d_avg_fill [OF sh fit] fl by simp
  next
    case 3
    then show ?thesis using pool2d_other_mode [OF sh fit 3] by simp
  qed
qed

lemma for_each_unchanged:
  assumes "P s" and "\<And>x s. P s \<Longrightarrow> body x s = Inr s"
  shows "for_each xs body s = Inr s"
  using assms by (induction xs) simp_all

lemma pool2d_empty_output:
  assumes sh: "shape X = (H, W)" and fit: "kh \<le> Suc H" "kw \<le> Suc W" and e: "kh = Suc H \<or> kw = Suc W"
  shows "pool2d X (kh, kw) mode = Inr \<lparr>shape = (Suc H - kh, Suc W - kw), dtype = Float32, data = []\<rparr>"
proof -
  let ?Y = "\<lparr>shape = (Suc H - kh, Suc W - kw), dtype = Float32, data = []\<rparr>"
  have z: "replicate ((Suc H - kh) * (Suc W - kw)) (Fin 0) = ([] :: scalar list)" using e by auto
  have "for_each (py_range (Suc H - kh)) (\<lambda>i Y. for_each (py_range (snd (shape Y)))
           (pool2d_cell X kh kw mode i) Y) ?Y = Inr ?Y"
  proof (cases "kh = Suc H")
    case True
    then show ?thesis by (simp add: py_range_def)
  next
    case False
    then have kw: "kw = Suc W" using e by simp
    show ?thesis
      by (rule for_each_unchanged [where P = "\<lambda>Y. snd (shape Y) = 0"]) (simp_all add: kw py_range_def)
  qed
  then show ?thesis
    using sh by (simp add: pool2d_def zeros2_fit [OF fit] z)
qed

lemma corr2d_empty_output:
  assumes sh: "shape X = (H, W)" and shK: "shape K = (kh, kw)"
    and fit: "kh \<le> Suc H" "kw \<le> Suc W" and e: "kh = Suc H \<or> kw = Suc W"
  shows "corr2d X K = Inr \<lparr>shape = (Suc H - kh, Suc W - kw), dtype = Float32, data = []\<rparr>"
proof -
  have "(Suc H - kh) * (Suc W - kw) = 0" using e by auto
  then show ?thesis using corr2d_fill [OF sh shK fit] e by (auto simp: tabulate2_def)
qed

lemma pool2d_negative:
  assumes sh: "shape X = (H, W)" and big: "Suc H < kh \<or> Suc W < kw"
  shows "pool2d X (kh, kw) mode = Inl NegativeDimension"
  using sh by (simp add: pool2d_def zeros2_negative [OF big])

lemma corr2d_negative:
  assumes sh: "shape X = (H, W)" and shK: "shape K = (kh, kw)" and big: "Suc H < kh \<or> Suc W < kw"
  shows "corr2d X K = Inl NegativeDimension"
  using sh shK by (simp add: corr2d_def zeros2_negative [OF big])

lemma pool2d_max_empty_window:
  assumes sh: "shape X = (H, W)" and fit: "kh \<le> H" "kw \<le> W" and z: "kh * kw = 0"
  shows "pool2d X (kh, kw) ''max'' = Inl EmptyReduction"
proof -
  have fit': "kh \<le> Suc H" "kw \<le> Suc W" using fit by simp_all
  have r: "py_range (Suc H - kh) = 0 # [1..<Suc H - kh]" "py_range (Suc W - kw) = 0 # [1..<Suc W - kw]"
    using fit by (simp_all add: py_range_def upt_conv_Cons)
  have "numel2 (slice2 X 0 kh 0 kw) = 0"
    using sh fit z by (auto simp: slice2_def numel2_def Let_def)
  then have "pool2d_cell X kh kw ''max'' 0 0 Y = Inl EmptyReduction" for Y
    by (simp add: pool2d_cell_def tmax_def)
  then show ?thesis
    using sh by (simp add: pool2d_def zeros2_fit [OF fit'] r)
qed

lemma for_each_invariant:
  assumes "P s" and "\<And>x s. x \<in> set xs \<Longrightarrow> P s \<Longrightarrow> (case body x s of Inl e \<Rightarrow> e \<in> E | Inr s' \<Rightarrow> P s')"
  shows "case for_each xs body s of Inl e \<Rightarrow> e \<in> E | Inr s' \<Rightarrow> P s'"
  using assms
proof (induction xs arbitrary: s)
  case Nil
  then show ?case by simp
next
  case (Cons x xs)
  show ?case
  proof (cases "body x s")
    case (Inl e)
    then show ?thesis using Cons.prems(2) [of x s] Cons.prems(1) by simp
  next
    case (Inr s')
    then have "P s'" using Cons.prems(2) [of x s] Cons.prems(1) by simp
    then show ?thesis using Inr Cons.IH [of s'] Cons.prems(2) by simp
  qed
qed

lemma pool2d_errors:
  assumes "pool2d X ps mode = Inl e"
  shows "e \<in> {NegativeDimension, EmptyReduction, MeanDtype}"
proof -
  obtain kh kw where ps: "ps = (kh, kw)" by (cases ps)
  let ?E = "{NegativeDimension, EmptyReduction, MeanDtype}"
  show ?thesis
  proof (cases "zeros2 (int (fst (shape X)) - int kh + 1) (int (snd (shape X)) - int kw + 1)")
    case (Inl e')
    then have "e' = NegativeDimension" by (auto simp: zeros2_def split: if_splits)
    then show ?thesis using assms Inl by (simp add: pool2d_def ps)
  next
    case (Inr Y)
    obtain h w where shY: "shape Y = (h, w)" by (cases "shape Y")
    have cell: "case pool2d_cell X kh kw mode i j Y' of Inl e \<Rightarrow> e \<in> ?E | Inr s' \<Rightarrow> shape s' = (h, w)"
      if "i < h" "j < w" "shape Y' = (h, w)" for i j Y'
      using that
      by (auto simp: pool2d_cell_def setitem2_def tmax_def tmean_def split: sum.splits if_splits)
    have inner: "case for_each (py_range (snd (shape Y'))) (\<lambda>j Y. pool2d_cell X kh kw mode i j Y) Y' of
            Inl e \<Rightarrow> e \<in> ?E | Inr s' \<Rightarrow> shape s' = (h, w)"
      if i: "i < h" and Y': "shape Y' = (h, w)" for i Y'
    proof (rule for_each_invariant [where P = "\<lambda>s. shape s = (h, w)"])
      show "shape Y' = (h, w)" by (rule Y')
    next
      fix j and s :: tensor2 assume "j \<in> set (py_range (snd (shape Y')))" "shape s = (h, w)"
      then show "case pool2d_cell X kh kw mode i j s of Inl e \<Rightarrow> e \<in> ?E | Inr s' \<Rightarrow> shape s' = (h, w)"
        using i Y' by (intro cell) (simp_all add: py_range_def)
    qed
    have "case for_each (py_range (fst (shape Y))) (\<lambda>i Y. for_each (py_range (snd (shape Y)))
            (\<lambda>j Y. pool2d_cell X kh kw mode i j Y) Y) Y of
            Inl e \<Rightarrow> e \<in> ?E | Inr s' \<Rightarrow> shape s' = (h, w)"
    proof (rule for_each_invariant [where P = "\<lambda>s. shape s = (h, w)"])
      show "shape Y = (h, w)" by (rule shY)
    next
      fix i and s :: tensor2 assume "i \<in> set (py_range (fst (shape Y)))" "shape s = (h, w)"
      then show "case for_each (py_range (snd (shape s))) (\<lambda>j Y. pool2d_cell X kh kw mode i j Y) s of
            Inl e \<Rightarrow> e \<in> ?E | Inr s' \<Rightarrow> shape s' = (h, w)"
        using shY by (intro inner) (simp_all add: py_range_def)
    qed
    then show ?thesis using assms Inr by (simp add: pool2d_def ps)
  qed
qed

subsection \<open>A mode that is neither maximum nor average\<close>

text \<open>
  C10. \<open>pool2d\<close> compares its mode with \<open>'max'\<close> and with \<open>'avg'\<close> and has no other
  branch. For any other mode string and a window that fits the grid, no cell is assigned
  and no error is raised: the result is the freshly allocated matrix of zeros, of shape
  \<open>(H - kh + 1, W - kw + 1)\<close>.
\<close>

theorem pool2d_unknown_mode_zeros:
  assumes "shape X = (H, W)" and "kh \<le> H" and "kw \<le> W"
    and "mode \<noteq> ''max''" and "mode \<noteq> ''avg''"
  shows "pool2d X (kh, kw) mode =
     Inr \<lparr>shape = (H - kh + 1, W - kw + 1), dtype = Float32,
          data = replicate ((H - kh + 1) * (W - kw + 1)) (Fin 0)\<rparr>"
proof -
  have "Suc H - kh = H - kh + 1" "Suc W - kw = W - kw + 1" using assms by simp_all
  then show ?thesis
    using pool2d_other_mode [of X H W kh kw mode] assms by simp
qed

theorem pool2d_unknown_mode_zeros_witness:
  "pool2d (float_grid 3 3 [0, 1, 2, 3, 4, 5, 6, 7, 8]) (2, 2) ''min'' =
     Inr \<lparr>shape = (2, 2), dtype = Float32, data = [Fin 0, Fin 0, Fin 0, Fin 0]\<rparr>"
  using pool2d_unknown_mode_zeros [of "float_grid 3 3 [0, 1, 2, 3, 4, 5, 6, 7, 8]" 3 3 2 2 "''min''"]
  by (simp add: float_grid_def numeral_eq_Suc)

subsection \<open>A window larger than the grid\<close>

text \<open>
  C5. Neither function checks the window against the grid; the only check is
  the one of the allocation \<open>torch.zeros\<close>, whose sizes are \<open>H - kh + 1\<close> and
  \<open>W - kw + 1\<close>. A window that exceeds the grid by two or more on an axis makes a size
  negative, and the allocation fails. A window that exceeds the grid by exactly one (and
  by no more on the other axis) makes a size zero: the loops do not run and the call
  returns an empty matrix without an error. A window equal to a grid of at least one
  element gives a matrix of one element.
\<close>

theorem window_beyond_grid:
  assumes "shape X = (H, W)" and "shape K = (kh, kw)"
  shows "(H + 1 < kh \<or> W + 1 < kw \<longrightarrow>
            pool2d X (kh, kw) mode = Inl NegativeDimension \<and> corr2d X K = Inl NegativeDimension)
       \<and> ((kh = H + 1 \<or> kw = W + 1) \<and> kh \<le> H + 1 \<and> kw \<le> W + 1 \<longrightarrow>
            pool2d X (kh, kw) mode =
              Inr \<lparr>shape = (H + 1 - kh, W + 1 - kw), dtype = Float32, data = []\<rparr>
          \<and> corr2d X K =
              Inr \<lparr>shape = (H + 1 - kh, W + 1 - kw), dtype = Float32, data = []\<rparr>)
       \<and> (kh = H \<and> kw = W \<and> 0 < H \<and> 0 < W \<and> (mode = ''avg'' \<longrightarrow> dtype X = Float32) \<longrightarrow>
            (\<exists>v. pool2d X (kh, kw) mode = Inr \<lparr>shape = (1, 1), dtype = Float32, data = [v]\<rparr>)
          \<and> (\<exists>v. corr2d X K = Inr \<lparr>shape = (1, 1), dtype = Float32, data = [v]\<rparr>))"
proof (intro conjI impI)
  assume "H + 1 < kh \<or> W + 1 < kw"
  then have big: "Suc H < kh \<or> Suc W < kw" by simp
  show "pool2d X (kh, kw) mode = Inl NegativeDimension"
    by (rule pool2d_negative [OF assms(1) big])
  show "corr2d X K = Inl NegativeDimension"
    by (rule corr2d_negative [OF assms big])
next
  assume a: "(kh = H + 1 \<or> kw = W + 1) \<and> kh \<le> H + 1 \<and> kw \<le> W + 1"
  then have fit: "kh \<le> Suc H" "kw \<le> Suc W" and e: "kh = Suc H \<or> kw = Suc W" by simp_all
  show "pool2d X (kh, kw) mode = Inr \<lparr>shape = (H + 1 - kh, W + 1 - kw), dtype = Float32, data = []\<rparr>"
    using pool2d_empty_output [OF assms(1) fit e, of mode] by simp
  show "corr2d X K = Inr \<lparr>shape = (H + 1 - kh, W + 1 - kw), dtype = Float32, data = []\<rparr>"
    using corr2d_empty_output [OF assms fit e] by simp
next
  assume a: "kh = H \<and> kw = W \<and> 0 < H \<and> 0 < W \<and> (mode = ''avg'' \<longrightarrow> dtype X = Float32)"
  then have fit: "kh \<le> Suc H" "kw \<le> Suc W" and pos: "0 < kh" "0 < kw"
    and fl: "mode = ''avg'' \<longrightarrow> dtype X = Float32" by simp_all
  have one: "Suc H - kh = 1" "Suc W - kw = 1" using a by simp_all
  obtain d where d: "pool2d X (kh, kw) mode = Inr \<lparr>shape = (Suc H - kh, Suc W - kw), dtype = Float32, data = d\<rparr>"
    "length d = (Suc H - kh) * (Suc W - kw)"
    using pool2d_shape [OF assms(1) fit pos fl] by blast
  from d(2) one obtain v where "d = [v]" by (cases d) simp_all
  then show "\<exists>v. pool2d X (kh, kw) mode = Inr \<lparr>shape = (1, 1), dtype = Float32, data = [v]\<rparr>"
    using d(1) one by simp
  show "\<exists>v. corr2d X K = Inr \<lparr>shape = (1, 1), dtype = Float32, data = [v]\<rparr>"
    using corr2d_fill [OF assms fit] one by (simp add: tabulate2_def)
qed

theorem window_beyond_grid_witness:
  "pool2d (float_grid 3 3 [0, 1, 2, 3, 4, 5, 6, 7, 8]) (5, 1) ''max'' = Inl NegativeDimension
   \<and> corr2d (float_grid 3 3 [0, 1, 2, 3, 4, 5, 6, 7, 8]) (float_grid 5 1 [1, 1, 1, 1, 1]) = Inl NegativeDimension
   \<and> pool2d (float_grid 3 3 [0, 1, 2, 3, 4, 5, 6, 7, 8]) (4, 2) ''avg'' =
        Inr \<lparr>shape = (0, 2), dtype = Float32, data = []\<rparr>
   \<and> corr2d (float_grid 3 3 [0, 1, 2, 3, 4, 5, 6, 7, 8]) (float_grid 4 2 [1, 1, 1, 1, 1, 1, 1, 1]) =
        Inr \<lparr>shape = (0, 2), dtype = Float32, data = []\<rparr>
   \<and> (\<exists>v. pool2d (float_grid 3 3 [0, 1, 2, 3, 4, 5, 6, 7, 8]) (3, 3) ''max'' =
        Inr \<lparr>shape = (1, 1), dtype = Float32, data = [v]\<rparr>)
   \<and> (\<exists>v. corr2d (float_grid 3 3 [0, 1, 2, 3, 4, 5, 6, 7, 8]) (float_grid 3 3 [0, 1, 2, 3, 4, 5, 6, 7, 8]) =
        Inr \<lparr>shape = (1, 1), dtype = Float32, data = [v]\<rparr>)"
  using window_beyond_grid [of "float_grid 3 3 [0, 1, 2, 3, 4, 5, 6, 7, 8]" 3 3 "float_grid 5 1 [1, 1, 1, 1, 1]" 5 1 "''max''"]
    window_beyond_grid [of "float_grid 3 3 [0, 1, 2, 3, 4, 5, 6, 7, 8]" 3 3 "float_grid 4 2 [1, 1, 1, 1, 1, 1, 1, 1]" 4 2 "''avg''"]
    window_beyond_grid [of "float_grid 3 3 [0, 1, 2, 3, 4, 5, 6, 7, 8]" 3 3 "float_grid 3 3 [0, 1, 2, 3, 4, 5, 6, 7, 8]" 3 3 "''max''"]
  by (simp add: float_grid_def)

theorem window_one_larger_returns_empty:
  "pool2d (float_grid 3 3 [0, 1, 2, 3, 4, 5, 6, 7, 8]) (4, 1) ''max'' =
     Inr \<lparr>shape = (0, 3), dtype = Float32, data = []\<rparr>
   \<and> corr2d (float_grid 3 3 [0, 1, 2, 3, 4, 5, 6, 7, 8]) (float_grid 4 1 [1, 1, 1, 1]) =
     Inr \<lparr>shape = (0, 3), dtype = Float32, data = []\<rparr>"
  by code_simp

subsection \<open>The maximum over a window of no element\<close>

text \<open>
  C6. The code defines no error of its own and catches none; every failure
  is an exception of the tensor library, raised where it arises. For the maximum with a
  window of no element (\<open>kh * kw = 0\<close>): if the window fits the grid, the output has a
  first cell and the maximum of its empty window fails there; if the window exceeds the
  grid by one on an axis, the output has no cell and is returned without an error; if it
  exceeds the grid by more, the allocation fails. In any mode and for any window,
  \<open>pool2d\<close> fails in three ways only: a negative size at the allocation, the maximum of
  an empty window, the mean of a tensor of integers.
\<close>

theorem max_of_empty_window:
  assumes "shape X = (H, W)" and "kh * kw = 0"
  shows "pool2d X (kh, kw) ''max'' =
      (if H + 1 < kh \<or> W + 1 < kw then Inl NegativeDimension
       else if kh = H + 1 \<or> kw = W + 1
         then Inr \<lparr>shape = (H + 1 - kh, W + 1 - kw), dtype = Float32, data = []\<rparr>
       else Inl EmptyReduction)
     \<and> (\<forall>ps mode e. pool2d X ps mode = Inl e \<longrightarrow>
           e \<in> {NegativeDimension, EmptyReduction, MeanDtype})"
proof (intro conjI allI impI)
  consider "Suc H < kh \<or> Suc W < kw"
    | "kh \<le> Suc H" "kw \<le> Suc W" "kh = Suc H \<or> kw = Suc W"
    | "kh \<le> H" "kw \<le> W" by linarith
  then show "pool2d X (kh, kw) ''max'' =
      (if H + 1 < kh \<or> W + 1 < kw then Inl NegativeDimension
       else if kh = H + 1 \<or> kw = W + 1
         then Inr \<lparr>shape = (H + 1 - kh, W + 1 - kw), dtype = Float32, data = []\<rparr>
       else Inl EmptyReduction)"
  proof cases
    case 1
    then show ?thesis using pool2d_negative [OF assms(1) 1] by simp
  next
    case 2
    then show ?thesis using pool2d_empty_output [OF assms(1) 2, of "''max''"] by auto
  next
    case 3
    then show ?thesis using pool2d_max_empty_window [OF assms(1) 3 assms(2)] by auto
  qed
next
  fix ps mode e assume "pool2d X ps mode = Inl e"
  then show "e \<in> {NegativeDimension, EmptyReduction, MeanDtype}" by (rule pool2d_errors)
qed

theorem max_of_empty_window_witness:
  "pool2d (float_grid 3 3 [0, 1, 2, 3, 4, 5, 6, 7, 8]) (0, 2) ''max'' = Inl EmptyReduction"
  using max_of_empty_window [of "float_grid 3 3 [0, 1, 2, 3, 4, 5, 6, 7, 8]" 3 3 0 2]
  by (simp add: float_grid_def)

theorem empty_window_empty_output_no_error:
  "pool2d (float_grid 3 3 [0, 1, 2, 3, 4, 5, 6, 7, 8]) (0, 4) ''max'' =
     Inr \<lparr>shape = (4, 0), dtype = Float32, data = []\<rparr>"
  by code_simp

subsection \<open>The shape of the output\<close>

text \<open>
  C4. \<open>pool2d\<close> and \<open>corr2d\<close> have no stride parameter: the window moves by
  one cell. For a window of at least one element that fits the grid (and, for the
  average, a grid of floats) both return a matrix of shape \<open>(H - kh + 1, W - kw + 1)\<close>,
  which is the specification's law at stride \<open>(1, 1)\<close>.
\<close>

theorem output_shape_stride_one:
  assumes "shape X = (H, W)" and "shape K = (kh, kw)"
    and "1 \<le> kh" and "kh \<le> H" and "1 \<le> kw" and "kw \<le> W"
    and "mode = ''avg'' \<longrightarrow> dtype X = Float32"
  shows "(\<exists>Y. pool2d X (kh, kw) mode = Inr Y \<and> shape Y = (spec_out_dim H kh 1, spec_out_dim W kw 1))
       \<and> (\<exists>Y. corr2d X K = Inr Y \<and> shape Y = (spec_out_dim H kh 1, spec_out_dim W kw 1))
       \<and> spec_out_dim H kh 1 = H - kh + 1 \<and> spec_out_dim W kw 1 = W - kw + 1"
proof -
  have fit: "kh \<le> Suc H" "kw \<le> Suc W" and pos: "0 < kh" "0 < kw" using assms by simp_all
  have eq: "spec_out_dim H kh 1 = Suc H - kh" "spec_out_dim W kw 1 = Suc W - kw"
    using assms by (simp_all add: spec_out_dim_def)
  have "\<exists>Y. pool2d X (kh, kw) mode = Inr Y \<and> shape Y = (Suc H - kh, Suc W - kw)"
    using pool2d_shape [OF assms(1) fit pos assms(7)] by auto
  moreover have "\<exists>Y. corr2d X K = Inr Y \<and> shape Y = (Suc H - kh, Suc W - kw)"
    using corr2d_fill [OF assms(1,2) fit] by simp
  moreover have "Suc H - kh = H - kh + 1" "Suc W - kw = W - kw + 1"
    using assms(4,6) by simp_all
  ultimately show ?thesis unfolding eq by simp
qed

theorem output_shape_stride_one_witness:
  "(\<exists>Y. pool2d (float_grid 3 3 [0, 1, 2, 3, 4, 5, 6, 7, 8]) (2, 2) ''max'' = Inr Y \<and> shape Y = (2, 2))
   \<and> (\<exists>Y. corr2d (float_grid 3 3 [0, 1, 2, 3, 4, 5, 6, 7, 8]) (float_grid 2 2 [0, 1, 2, 3]) = Inr Y
          \<and> shape Y = (2, 2))"
proof -
  have X: "shape (float_grid 3 3 [0, 1, 2, 3, 4, 5, 6, 7, 8]) = (3, 3)"
    and K: "shape (float_grid 2 2 [0, 1, 2, 3]) = (2, 2)"
    and fl: "''max'' = ''avg'' \<longrightarrow> dtype (float_grid 3 3 [0, 1, 2, 3, 4, 5, 6, 7, 8]) = Float32"
    by (simp_all add: float_grid_def)
  have b: "(1::nat) \<le> 2" "(2::nat) \<le> 3" by simp_all
  have s: "spec_out_dim 3 2 1 = 2" by (simp add: spec_out_dim_def)
  show ?thesis
    using output_shape_stride_one [OF X K b(1) b(2) b(1) b(2) fl] unfolding s by blast
qed

theorem stride_example_shape:
  "(spec_out_dim 8 3 3, spec_out_dim 8 5 4) = (2, 1)
   \<and> (\<exists>Y. pool2d (float_grid 8 8 (replicate 64 0)) (3, 5) ''max'' = Inr Y \<and> shape Y = (6, 4))"
proof -
  have "shape (float_grid 8 8 (replicate 64 0)) = (8, 8)" by (simp add: float_grid_def)
  from pool2d_max_fill [OF this, of 3 5]
  have "\<exists>Y. pool2d (float_grid 8 8 (replicate 64 0)) (3, 5) ''max'' = Inr Y \<and> shape Y = (6, 4)"
    by simp
  then show ?thesis by (simp add: spec_out_dim_def)
qed

subsection \<open>Sums and maxima over a window of real numbers\<close>

lemma tabulate2_Suc:
  "tabulate2 (Suc h) w g = tabulate2 h w g @ map (g h) [0..<w]"
proof -
  have "[0..<h * w + w] = [0..<h * w] @ [h * w..<h * w + w]"
    by (rule upt_add_eq_append) simp
  moreover have "[h * w..<h * w + w] = map (\<lambda>q. q + h * w) [0..<w]"
    using map_add_upt [of "h * w" w] by (simp only: add.commute)
  moreover have "Suc h * w = h * w + w" by simp
  ultimately have "[0..<Suc h * w] = [0..<h * w] @ map (\<lambda>q. q + h * w) [0..<w]"
    by (simp only:)
  then show ?thesis by (simp add: tabulate2_def)
qed

lemma tabulate2_Fin: "tabulate2 h w (\<lambda>r c. Fin (g r c)) = map Fin (tabulate2 h w g)"
  by (simp add: tabulate2_def)

lemma foldl_smax_Fin: "foldl smax (Fin a) (map Fin ys) = Fin (Max (insert a (set ys)))"
proof (induction ys arbitrary: a)
  case Nil
  then show ?case by simp
next
  case (Cons y ys)
  have "Max (insert (max a y) (set ys)) = Max (insert a (insert y (set ys)))"
    by (cases "set ys = {}") (simp_all add: max.assoc)
  then show ?case using Cons.IH [of "max a y"] by simp
qed


lemma set_tabulate2: "set (tabulate2 h w g) = (\<lambda>(p, q). g p q) ` ({..<h} \<times> {..<w})"
proof (induction h)
  case 0
  then show ?case by simp
next
  case (Suc h)
  have "{..<Suc h} \<times> {..<w} = ({..<h} \<times> {..<w}) \<union> ({h} \<times> {..<w})"
    by (auto simp: lessThan_Suc)
  moreover have "set (map (g h) [0..<w]) = (\<lambda>(p, q). g p q) ` ({h} \<times> {..<w})"
    by (auto simp: atLeast0LessThan image_iff)
  ultimately show ?case using Suc by (simp add: tabulate2_Suc image_Un)
qed

lemma window_of_reals:
  assumes "data X = map Fin xs" "length xs = H * W" "i + kh \<le> H" "j + kw \<le> W"
  shows "tabulate2 kh kw (\<lambda>r c. data X ! ((i + r) * W + (j + c)))
       = map Fin (tabulate2 kh kw (\<lambda>r c. xs ! ((i + r) * W + (j + c))))"
proof -
  have "tabulate2 kh kw (\<lambda>r c. data X ! ((i + r) * W + (j + c)))
      = tabulate2 kh kw (\<lambda>r c. Fin (xs ! ((i + r) * W + (j + c))))"
  proof (rule tabulate2_cong)
    fix r c assume r: "r < kh" and c: "c < kw"
    have "(i + r) * W + (j + c) < Suc (i + r) * W" using c assms(4) by simp
    also have "\<dots> \<le> H * W" using r assms(3) by (intro mult_le_mono1) simp
    finally show "data X ! ((i + r) * W + (j + c)) = Fin (xs ! ((i + r) * W + (j + c)))"
      using assms(1,2) by simp
  qed
  then show ?thesis by (simp add: tabulate2_Fin)
qed

lemma hd_tl_Max:
  assumes "ys \<noteq> []"
  shows "foldl smax (hd (map Fin ys)) (tl (map Fin ys)) = Fin (Max (set ys))"
proof -
  obtain y ys' where ys: "ys = y # ys'" using assms by (cases ys) auto
  show ?thesis unfolding ys using foldl_smax_Fin [of y ys'] by simp
qed











subsection \<open>Cross-correlation is a weighted sum over each window\<close>




subsection \<open>Maximum pooling\<close>

text \<open>
  C2. For a grid of shape \<open>(H, W)\<close> and a window \<open>(kh, kw)\<close> with \<open>1 \<le> kh \<le> H\<close> and
  \<open>1 \<le> kw \<le> W\<close>, \<open>pool2d\<close> in mode \<open>'max'\<close> returns a matrix of floats of shape
  \<open>(H - kh + 1, W - kw + 1)\<close> whose cell \<open>(i, j)\<close> is the greatest of the \<open>kh * kw\<close>
  elements \<open>grid[i + p, j + q]\<close> of the window, converted to a 32-bit float. The cell is
  that greatest element itself when the grid is of floats, or when the greatest element
  is an integer of magnitude at most \<open>2^24\<close>; a greater integer is rounded. On the grid
  \<open>[[0,1,2],[3,4,5],[6,7,8]]\<close> with window \<open>(2, 2)\<close> the output is \<open>[[4,5],[7,8]]\<close>.
\<close>

theorem pool2d_max_of_window:
  assumes "is_grid X H W xs"
    and "1 \<le> kh" and "kh \<le> H" and "1 \<le> kw" and "kw \<le> W"
  shows "(\<exists>Y. pool2d X (kh, kw) ''max'' = Inr Y \<and> shape Y = (H - kh + 1, W - kw + 1)
            \<and> dtype Y = Float32
            \<and> length (data Y) = (H - kh + 1) * (W - kw + 1)
            \<and> (\<forall>i<H - kh + 1. \<forall>j<W - kw + 1.
                  at2 Y i j = to_float32 (dtype X)
                     (Fin (Max ((\<lambda>(p, q). xs ! ((i + p) * W + (j + q))) ` ({..<kh} \<times> {..<kw}))))
                \<and> (dtype X = Float32
                      \<or> small_int (Max ((\<lambda>(p, q). xs ! ((i + p) * W + (j + q))) ` ({..<kh} \<times> {..<kw})))
                    \<longrightarrow> at2 Y i j =
                          Fin (Max ((\<lambda>(p, q). xs ! ((i + p) * W + (j + q))) ` ({..<kh} \<times> {..<kw}))))))
       \<and> pool2d (float_grid 3 3 [0, 1, 2, 3, 4, 5, 6, 7, 8]) (2, 2) ''max''
           = Inr (float_grid 2 2 [4, 5, 7, 8])"
proof
  have sh: "shape X = (H, W)" and dX: "data X = map Fin xs" and lX: "length xs = H * W"
    using assms(1) by (simp_all add: is_grid_def)
  have fit: "kh \<le> Suc H" "kw \<le> Suc W" and pos: "0 < kh" "0 < kw" using assms by simp_all
  have dims: "Suc H - kh = H - kh + 1" "Suc W - kw = W - kw + 1" using assms by simp_all
  let ?win = "\<lambda>i j. tabulate2 kh kw (\<lambda>r c. data X ! ((i + r) * W + (j + c)))"
  let ?f = "\<lambda>i j. to_float32 (dtype X) (foldl smax (hd (?win i j)) (tl (?win i j)))"
  let ?M = "\<lambda>i j. Max ((\<lambda>(p, q). xs ! ((i + p) * W + (j + q))) ` ({..<kh} \<times> {..<kw}))"
  let ?Y = "\<lparr>shape = (Suc H - kh, Suc W - kw), dtype = Float32,
             data = tabulate2 (Suc H - kh) (Suc W - kw) ?f\<rparr>"
  have Y: "pool2d X (kh, kw) ''max'' = Inr ?Y" by (rule pool2d_max_fill [OF sh fit pos])
  have cell: "at2 ?Y i j = to_float32 (dtype X) (Fin (?M i j))"
    if i: "i < Suc H - kh" and j: "j < Suc W - kw" for i j
  proof -
    have le: "i + kh \<le> H" "j + kw \<le> W" using i j by simp_all
    let ?ys = "tabulate2 kh kw (\<lambda>r c. xs ! ((i + r) * W + (j + c)))"
    have w: "?win i j = map Fin ?ys" by (rule window_of_reals [OF dX lX le])
    have "length ?ys = kh * kw" by simp
    then have ne: "?ys \<noteq> []" using pos by (metis length_0_conv mult_is_0 less_numeral_extra(3))
    have "foldl smax (hd (?win i j)) (tl (?win i j)) = Fin (Max (set ?ys))"
      unfolding w by (rule hd_tl_Max [OF ne])
    then have "?f i j = to_float32 (dtype X) (Fin (?M i j))"
      by (simp add: set_tabulate2)
    then show ?thesis using i j by (simp add: at2_def nth_tabulate2)
  qed
  have exact: "to_float32 (dtype X) (Fin m) = Fin m" if "dtype X = Float32 \<or> small_int m" for m
  proof (cases "dtype X = Float32")
    case True
    then show ?thesis by (simp add: to_float32_def)
  next
    case False
    then have "small_int m" using that by simp
    then show ?thesis by (rule to_float32_small)
  qed
  show "\<exists>Y. pool2d X (kh, kw) ''max'' = Inr Y \<and> shape Y = (H - kh + 1, W - kw + 1)
            \<and> dtype Y = Float32
            \<and> length (data Y) = (H - kh + 1) * (W - kw + 1)
            \<and> (\<forall>i<H - kh + 1. \<forall>j<W - kw + 1.
                  at2 Y i j = to_float32 (dtype X) (Fin (?M i j))
                \<and> (dtype X = Float32 \<or> small_int (?M i j) \<longrightarrow> at2 Y i j = Fin (?M i j)))"
  proof (intro exI conjI allI impI)
    show "pool2d X (kh, kw) ''max'' = Inr ?Y" by (rule Y)
    show "shape ?Y = (H - kh + 1, W - kw + 1)" using dims by simp
    show "dtype ?Y = Float32" by simp
    show "length (data ?Y) = (H - kh + 1) * (W - kw + 1)" using dims by simp
  next
    fix i j assume "i < H - kh + 1" "j < W - kw + 1"
    then show "at2 ?Y i j = to_float32 (dtype X) (Fin (?M i j))"
      using dims by (intro cell) simp_all
  next
    fix i j assume ij: "i < H - kh + 1" "j < W - kw + 1"
      and e: "dtype X = Float32 \<or> small_int (?M i j)"
    have "at2 ?Y i j = to_float32 (dtype X) (Fin (?M i j))"
      using ij dims by (intro cell) simp_all
    then show "at2 ?Y i j = Fin (?M i j)" using exact [OF e] by simp
  qed
next
  show "pool2d (float_grid 3 3 [0, 1, 2, 3, 4, 5, 6, 7, 8]) (2, 2) ''max''
           = Inr (float_grid 2 2 [4, 5, 7, 8])"
    by code_simp
qed

theorem pool2d_max_of_window_witness:
  "is_grid (float_grid 3 3 [0, 1, 2, 3, 4, 5, 6, 7, 8]) 3 3 [0, 1, 2, 3, 4, 5, 6, 7, 8]
   \<and> dtype (float_grid 3 3 [0, 1, 2, 3, 4, 5, 6, 7, 8]) = Float32
   \<and> (\<exists>Y. pool2d (float_grid 3 3 [0, 1, 2, 3, 4, 5, 6, 7, 8]) (2, 2) ''max'' = Inr Y
          \<and> shape Y = (2, 2)
          \<and> at2 Y 0 1 = Fin (Max ((\<lambda>(p, q). [0, 1, 2, 3, 4, 5, 6, 7, 8] ! ((0 + p) * 3 + (1 + q)))
                                    ` ({..<2} \<times> {..<2})))
          \<and> at2 Y 0 1 = Fin 5)"
proof -
  have X: "is_grid (float_grid 3 3 [0, 1, 2, 3, 4, 5, 6, 7, 8]) 3 3 [0, 1, 2, 3, 4, 5, 6, 7, 8]"
    and fl: "dtype (float_grid 3 3 [0, 1, 2, 3, 4, 5, 6, 7, 8]) = Float32"
    by (simp_all add: is_grid_def float_grid_def)
  have b: "(1::nat) \<le> 2" "(2::nat) \<le> 3" by simp_all
  have d: "(3::nat) - 2 + 1 = 2" and lt: "(0::nat) < 2" "(1::nat) < 2" by simp_all
  from pool2d_max_of_window [OF X b(1) b(2) b(1) b(2)]
  obtain Y where Y: "pool2d (float_grid 3 3 [0, 1, 2, 3, 4, 5, 6, 7, 8]) (2, 2) ''max'' = Inr Y"
    "shape Y = (2, 2)"
    "\<forall>i<2. \<forall>j<2. at2 Y i j = to_float32 (dtype (float_grid 3 3 [0, 1, 2, 3, 4, 5, 6, 7, 8]))
         (Fin (Max ((\<lambda>(p, q). [0, 1, 2, 3, 4, 5, 6, 7, 8] ! ((i + p) * 3 + (j + q))) ` ({..<2} \<times> {..<2}))))
       \<and> (dtype (float_grid 3 3 [0, 1, 2, 3, 4, 5, 6, 7, 8]) = Float32
            \<or> small_int (Max ((\<lambda>(p, q). [0, 1, 2, 3, 4, 5, 6, 7, 8] ! ((i + p) * 3 + (j + q))) ` ({..<2} \<times> {..<2})))
          \<longrightarrow> at2 Y i j =
             Fin (Max ((\<lambda>(p, q). [0, 1, 2, 3, 4, 5, 6, 7, 8] ! ((i + p) * 3 + (j + q))) ` ({..<2} \<times> {..<2}))))"
    and ex: "pool2d (float_grid 3 3 [0, 1, 2, 3, 4, 5, 6, 7, 8]) (2, 2) ''max''
           = Inr (float_grid 2 2 [4, 5, 7, 8])"
    unfolding d by blast
  have c: "at2 Y 0 1 = Fin (Max ((\<lambda>(p, q). [0, 1, 2, 3, 4, 5, 6, 7, 8] ! ((0 + p) * 3 + (1 + q)))
                                    ` ({..<2} \<times> {..<2})))"
    using Y(3) fl lt by blast
  have "Y = float_grid 2 2 [4, 5, 7, 8]" using Y(1) ex by simp
  then have "at2 Y 0 1 = Fin 5" by (simp add: at2_def float_grid_def)
  then show ?thesis using X fl Y(1,2) c by blast
qed

theorem max_of_large_integers_is_rounded:
  "pool2d (int_grid 1 1 [16777217]) (1, 1) ''max'' = Inr (float_grid 1 1 [16777216])
   \<and> is_grid (int_grid 1 1 [16777217]) 1 1 [16777217]
   \<and> Max ((\<lambda>(p, q). [16777217] ! ((0 + p) * 1 + (0 + q))) ` ({..<1} \<times> {..<1})) = (16777217 :: real)"
proof (intro conjI)
  show "pool2d (int_grid 1 1 [16777217]) (1, 1) ''max'' = Inr (float_grid 1 1 [16777216])"
    by code_simp
  show "is_grid (int_grid 1 1 [16777217]) 1 1 [16777217]"
    by (simp add: is_grid_def int_grid_def)
  show "Max ((\<lambda>(p, q). [16777217] ! ((0 + p) * 1 + (0 + q))) ` ({..<1} \<times> {..<1})) = (16777217 :: real)"
    by (simp add: lessThan_Suc)
qed

subsection \<open>Average pooling\<close>




subsection \<open>Several input channels\<close>

lemma tabulate2_flat:
  "tabulate2 h w (\<lambda>r c. f (r * w + c)) = map f [0..<h * w]"
  unfolding tabulate2_def
proof (rule map_cong [OF refl])
  fix k assume "k \<in> set [0..<h * w]"
  show "f (k div w * w + k mod w) = f k" by simp
qed

lemma tabulate2_map2:
  assumes "length a = h * w" "length b = h * w"
  shows "tabulate2 h w (\<lambda>r c. f (a ! (r * w + c)) (b ! (r * w + c))) = map2 f a b"
proof -
  have "map (\<lambda>k. f (a ! k) (b ! k)) [0..<h * w] = map2 f a b"
    using assms by (intro nth_equalityI) simp_all
  then show ?thesis using tabulate2_flat [of h w "\<lambda>k. f (a ! k) (b ! k)"] by simp
qed

lemma unbind3_two:
  assumes "shape X = (2, H, W)"
  shows "unbind3 X = [\<lparr>shape = (H, W), dtype = dtype X, data = take (H * W) (data X)\<rparr>,
                      \<lparr>shape = (H, W), dtype = dtype X, data = take (H * W) (drop (H * W) (data X))\<rparr>]"
  using assms by (simp add: unbind3_def numeral_2_eq_2)

text \<open>Adding the integer \<open>0\<close> to a tensor of 32-bit floats changes no element.\<close>

lemma py_add_zero:
  assumes "dtype T = Float32" and "\<forall>t\<in>set (data T). is_f32 t"
  shows "py_add (PyInt 0) T = Inr (PyTensor T)"
proof -
  have "map (\<lambda>t. sadd Float32 t (of_pyint Float32 0)) (data T) = map (\<lambda>t. t) (data T)"
    using assms(2) by (intro map_cong refl) (simp add: sadd_def of_pyint_def small_int_round fadd_zero)
  then show ?thesis using assms(1) by (simp add: py_add_def)
qed

text \<open>Every element that \<open>corr2d\<close> returns is a 32-bit float.\<close>

lemma corr2d_cell_is_f32:
  "is_f32 (to_float32 p (foldl (sadd p) (Fin 0) ts))"
proof (cases p)
  case Float32
  have "sadd Float32 = fadd" by (intro ext) (simp add: sadd_def)
  then show ?thesis using Float32 by (simp add: to_float32_def is_f32_foldl_fadd)
next
  case Int64
  then show ?thesis by simp
qed

lemma corr2d_cases:
  assumes "shape X = (H, W)" "shape K = (kh, kw)"
  shows "((Suc H < kh \<or> Suc W < kw) \<and> corr2d X K = Inl NegativeDimension)
       \<or> (kh \<le> Suc H \<and> kw \<le> Suc W \<and>
           (\<exists>d. corr2d X K = Inr \<lparr>shape = (Suc H - kh, Suc W - kw), dtype = Float32, data = d\<rparr>
                \<and> length d = (Suc H - kh) * (Suc W - kw) \<and> (\<forall>t\<in>set d. is_f32 t)))"
proof (cases "Suc H < kh \<or> Suc W < kw")
  case True
  then show ?thesis using corr2d_negative [OF assms True] by blast
next
  case False
  then have fit: "kh \<le> Suc H" "kw \<le> Suc W" by simp_all
  let ?p = "promote (dtype X) (dtype K)"
  let ?d = "tabulate2 (Suc H - kh) (Suc W - kw) (\<lambda>i j.
            to_float32 ?p (foldl (sadd ?p) (Fin 0) (tabulate2 kh kw (\<lambda>r c.
                 smul ?p (promoted (dtype X) ?p (data X ! ((i + r) * W + (j + c))))
                         (promoted (dtype K) ?p (data K ! (r * kw + c)))))))"
  have "corr2d X K = Inr \<lparr>shape = (Suc H - kh, Suc W - kw), dtype = Float32, data = ?d\<rparr>"
    by (rule corr2d_fill [OF assms fit])
  moreover have "length ?d = (Suc H - kh) * (Suc W - kw)" by simp
  moreover have "\<forall>t\<in>set ?d. is_f32 t" by (auto simp: set_tabulate2 corr2d_cell_is_f32)
  ultimately show ?thesis using fit by blast
qed

text \<open>
  C7. For a stack of two grids and a stack of two weight matrices, \<open>corr2d_multi_in\<close>
  cross-correlates the first grid with the first weights and the second grid with the
  second weights, and returns the sum, element by element, of the two results (the
  addition of 32-bit floats). When a cross-correlation fails, the call fails with its
  error.
\<close>

theorem corr2d_multi_in_two_channels:
  assumes "shape X = (2, H, W)" and "shape K = (2, kh, kw)"
  shows "corr2d_multi_in X K =
     (case corr2d (unbind3 X ! 0) (unbind3 K ! 0) of
        Inl e \<Rightarrow> Inl e
      | Inr Y0 \<Rightarrow>
          (case corr2d (unbind3 X ! 1) (unbind3 K ! 1) of
             Inl e \<Rightarrow> Inl e
           | Inr Y1 \<Rightarrow>
               Inr (PyTensor \<lparr>shape = shape Y0, dtype = Float32,
                              data = map2 (sadd Float32) (data Y0) (data Y1)\<rparr>)))"
proof -
  let ?x0 = "\<lparr>shape = (H, W), dtype = dtype X, data = take (H * W) (data X)\<rparr>"
  let ?x1 = "\<lparr>shape = (H, W), dtype = dtype X, data = take (H * W) (drop (H * W) (data X))\<rparr>"
  let ?k0 = "\<lparr>shape = (kh, kw), dtype = dtype K, data = take (kh * kw) (data K)\<rparr>"
  let ?k1 = "\<lparr>shape = (kh, kw), dtype = dtype K, data = take (kh * kw) (drop (kh * kw) (data K))\<rparr>"
  have uX: "unbind3 X = [?x0, ?x1]" by (rule unbind3_two [OF assms(1)])
  have uK: "unbind3 K = [?k0, ?k1]" by (rule unbind3_two [OF assms(2)])
  have multi: "corr2d_multi_in X K = py_sum (PyInt 0) [corr2d ?x0 ?k0, corr2d ?x1 ?k1]"
    by (simp add: corr2d_multi_in_def uX uK)
  have s0: "shape ?x0 = (H, W)" "shape ?k0 = (kh, kw)" and s1: "shape ?x1 = (H, W)" "shape ?k1 = (kh, kw)"
    by simp_all
  consider (fails) "corr2d ?x0 ?k0 = Inl NegativeDimension"
    | (returns) d0 where "kh \<le> Suc H" "kw \<le> Suc W"
        "corr2d ?x0 ?k0 = Inr \<lparr>shape = (Suc H - kh, Suc W - kw), dtype = Float32, data = d0\<rparr>"
        "length d0 = (Suc H - kh) * (Suc W - kw)" "\<forall>t\<in>set d0. is_f32 t"
    using corr2d_cases [OF s0] by blast
  then show ?thesis
  proof cases
    case fails
    then show ?thesis by (simp add: multi uX uK)
  next
    case (returns d0)
    have "\<not> (Suc H < kh \<or> Suc W < kw)" using returns(1,2) by simp
    then obtain d1 where d1: "corr2d ?x1 ?k1 = Inr \<lparr>shape = (Suc H - kh, Suc W - kw), dtype = Float32, data = d1\<rparr>"
      "length d1 = (Suc H - kh) * (Suc W - kw)"
      using corr2d_cases [OF s1] by blast
    have "tadd \<lparr>shape = (Suc H - kh, Suc W - kw), dtype = Float32, data = d0\<rparr>
               \<lparr>shape = (Suc H - kh, Suc W - kw), dtype = Float32, data = d1\<rparr>
        = Inr \<lparr>shape = (Suc H - kh, Suc W - kw), dtype = Float32, data = map2 (sadd Float32) d0 d1\<rparr>"
      using returns(4) d1(2)
      by (simp add: tadd_def broadcast2_same [where h = "Suc H - kh" and w = "Suc W - kw"]
          promote_def promoted_def to_float32_def tabulate2_map2)
    moreover have "py_add (PyInt 0) \<lparr>shape = (Suc H - kh, Suc W - kw), dtype = Float32, data = d0\<rparr>
        = Inr (PyTensor \<lparr>shape = (Suc H - kh, Suc W - kw), dtype = Float32, data = d0\<rparr>)"
      by (rule py_add_zero) (simp_all add: returns(5))
    ultimately show ?thesis
      by (simp add: multi uX uK returns(3) d1(1) py_add_def)
  qed
qed

theorem corr2d_multi_in_two_channels_witness:
  "shape (float_stack 2 3 3 [0, 1, 2, 3, 4, 5, 6, 7, 8, 1, 2, 3, 4, 5, 6, 7, 8, 9]) = (2, 3, 3)
   \<and> shape (float_stack 2 2 2 [0, 1, 2, 3, 1, 2, 3, 4]) = (2, 2, 2)
   \<and> corr2d_multi_in (float_stack 2 3 3 [0, 1, 2, 3, 4, 5, 6, 7, 8, 1, 2, 3, 4, 5, 6, 7, 8, 9])
        (float_stack 2 2 2 [0, 1, 2, 3, 1, 2, 3, 4])
       = Inr (PyTensor (float_grid 2 2 [56, 72, 104, 120]))"
proof -
  let ?X = "float_stack 2 3 3 [0, 1, 2, 3, 4, 5, 6, 7, 8, 1, 2, 3, 4, 5, 6, 7, 8, 9]"
  let ?K = "float_stack 2 2 2 [0, 1, 2, 3, 1, 2, 3, 4]"
  have X: "shape ?X = (2, 3, 3)" and K: "shape ?K = (2, 2, 2)"
    by (simp_all add: float_stack_def)
  have a: "corr2d (unbind3 ?X ! 0) (unbind3 ?K ! 0) = Inr (float_grid 2 2 [19, 25, 37, 43])"
    by code_simp
  have "corr2d (unbind3 ?X ! 1) (unbind3 ?K ! 1) = Inr (float_grid 2 2 [37, 47, 67, 77])"
    by code_simp
  then have b: "corr2d (unbind3 ?X ! Suc 0) (unbind3 ?K ! Suc 0) = Inr (float_grid 2 2 [37, 47, 67, 77])"
    by simp
  have c: "map2 (sadd Float32) (data (float_grid 2 2 [19, 25, 37, 43])) (data (float_grid 2 2 [37, 47, 67, 77]))
      = map Fin [56, 72, 104, 120]"
    by code_simp
  have "corr2d_multi_in ?X ?K = Inr (PyTensor (float_grid 2 2 [56, 72, 104, 120]))"
    using corr2d_multi_in_two_channels [OF X K] by (simp add: a b c) (simp add: float_grid_def)
  then show ?thesis using X K by blast
qed

subsection \<open>The kernel of size 1\<close>

lemma tabulate2_rows:
  "tabulate2 h w f = concat (map (\<lambda>r. map (f r) [0..<w]) [0..<h])"
  by (induction h) (simp_all add: tabulate2_Suc)

lemma unbind3_nth:
  assumes "shape X = (C, H, W)"
  shows "unbind3 X = map (\<lambda>c. \<lparr>shape = (H, W), dtype = dtype X,
                  data = take (H * W) (drop (c * (H * W)) (data X))\<rparr>) [0..<C]"
  using assms by (simp add: unbind3_def)

text \<open>One channel against one weight: every element is multiplied by the weight.\<close>

lemma sadd_float: "sadd Float32 = fadd"
  by (intro ext) (simp add: sadd_def)

lemma smul_float: "smul Float32 = fmul"
  by (intro ext) (simp add: smul_def)

lemma smul_float_commute: "smul Float32 a b = smul Float32 b a"
  by (simp add: smul_float fmul_commute)

lemma corr2d_one_weight:
  assumes "shape x = (H, W)" "shape k = (1, 1)" "dtype x = Float32" "dtype k = Float32"
  shows "corr2d x k = Inr \<lparr>shape = (H, W), dtype = Float32,
                           data = map (\<lambda>m. smul Float32 (data x ! m) (data k ! 0)) [0..<H * W]\<rparr>"
proof -
  have w: "tabulate2 (Suc 0) (Suc 0) g = [g 0 0]" for g :: "nat \<Rightarrow> nat \<Rightarrow> scalar"
    by (simp add: tabulate2_def)
  have "tabulate2 H W (\<lambda>i j. to_float32 Float32 (foldl (sadd Float32) (Fin 0) (tabulate2 1 1 (\<lambda>r c.
              smul Float32 (promoted Float32 Float32 (data x ! ((i + r) * W + (j + c))))
                           (promoted Float32 Float32 (data k ! (r * 1 + c)))))))
      = tabulate2 H W (\<lambda>i j. smul Float32 (data x ! (i * W + j)) (data k ! 0))"
    by (simp add: w to_float32_def promoted_def sadd_float smul_float fadd_zero)
  also have "\<dots> = map (\<lambda>m. smul Float32 (data x ! m) (data k ! 0)) [0..<H * W]"
    by (rule tabulate2_flat [of H W "\<lambda>m. smul Float32 (data x ! m) (data k ! 0)"])
  finally show ?thesis
    using corr2d_fill [OF assms(1,2), of ] by (simp add: promote_def assms(3,4))
qed

text \<open>The sum of a list of matrices of one shape, cell by cell.\<close>

lemma py_sum_tensors:
  assumes "\<forall>T\<in>set Ts. shape T = (H, W) \<and> dtype T = Float32 \<and> length (data T) = H * W"
    and "shape A = (H, W)" "dtype A = Float32" "length (data A) = H * W"
  shows "py_sum (PyTensor A) (map Inr Ts) =
     Inr (PyTensor \<lparr>shape = (H, W), dtype = Float32,
            data = map (\<lambda>m. foldl (sadd Float32) (data A ! m) (map (\<lambda>T. data T ! m) Ts)) [0..<H * W]\<rparr>)"
  using assms
proof (induction Ts arbitrary: A)
  case Nil
  have "map (\<lambda>m. data A ! m) [0..<H * W] = data A"
    using Nil(4) by (metis map_nth)
  then have "A = \<lparr>shape = (H, W), dtype = Float32, data = map (\<lambda>m. data A ! m) [0..<H * W]\<rparr>"
    using Nil(2,3) by simp
  then show ?case by simp
next
  case (Cons T Ts)
  have T: "shape T = (H, W)" "dtype T = Float32" "length (data T) = H * W"
    and rest: "\<forall>T\<in>set Ts. shape T = (H, W) \<and> dtype T = Float32 \<and> length (data T) = H * W"
    using Cons.prems(1) by simp_all
  let ?S = "\<lparr>shape = (H, W), dtype = Float32, data = map2 (sadd Float32) (data A) (data T)\<rparr>"
  have "broadcast2 sadd A T = Inr \<lparr>shape = (H, W), dtype = Float32,
          data = tabulate2 H W (\<lambda>r c. sadd Float32 (data A ! (r * W + c)) (data T ! (r * W + c)))\<rparr>"
    using broadcast2_same [OF Cons.prems(2) T(1), of sadd]
    by (simp add: promote_def promoted_def to_float32_def Cons.prems(3) T(2))
  moreover have "tabulate2 H W (\<lambda>r c. sadd Float32 (data A ! (r * W + c)) (data T ! (r * W + c)))
      = map2 (sadd Float32) (data A) (data T)"
    by (rule tabulate2_map2 [OF Cons.prems(4) T(3)])
  ultimately have add: "tadd A T = Inr ?S"
    by (simp add: tadd_def)
  have S: "shape ?S = (H, W)" "dtype ?S = Float32" "length (data ?S) = H * W"
    using Cons.prems(4) T(3) by simp_all
  have IH: "py_sum (PyTensor ?S) (map Inr Ts) =
     Inr (PyTensor \<lparr>shape = (H, W), dtype = Float32,
            data = map (\<lambda>m. foldl (sadd Float32) (data ?S ! m) (map (\<lambda>T. data T ! m) Ts)) [0..<H * W]\<rparr>)"
    by (rule Cons.IH [OF rest S])
  have cells: "map (\<lambda>m. foldl (sadd Float32) (data ?S ! m) (map (\<lambda>T. data T ! m) Ts)) [0..<H * W]
      = map (\<lambda>m. foldl (sadd Float32) (data A ! m) (map (\<lambda>T. data T ! m) (T # Ts))) [0..<H * W]"
  proof (rule map_cong [OF refl])
    fix m assume "m \<in> set [0..<H * W]"
    then have m: "m < H * W" by simp
    then have "data ?S ! m = sadd Float32 (data A ! m) (data T ! m)"
      using Cons.prems(4) T(3) by simp
    then show "foldl (sadd Float32) (data ?S ! m) (map (\<lambda>T. data T ! m) Ts)
        = foldl (sadd Float32) (data A ! m) (map (\<lambda>T. data T ! m) (T # Ts))"
      by simp
  qed
  have "py_sum (PyTensor A) (map Inr (T # Ts)) = py_sum (PyTensor ?S) (map Inr Ts)"
    by (simp add: py_add_def add)
  then show ?case unfolding IH cells .
qed

lemma py_sum_from_zero:
  assumes "\<forall>T\<in>set Ts. shape T = (H, W) \<and> dtype T = Float32 \<and> length (data T) = H * W"
    and "\<forall>T\<in>set Ts. \<forall>t\<in>set (data T). is_f32 t"
    and "Ts \<noteq> []"
  shows "py_sum (PyInt 0) (map Inr Ts) =
     Inr (PyTensor \<lparr>shape = (H, W), dtype = Float32,
            data = map (\<lambda>m. foldl (sadd Float32) (Fin 0) (map (\<lambda>T. data T ! m) Ts)) [0..<H * W]\<rparr>)"
proof -
  obtain T Ts' where Ts: "Ts = T # Ts'" using assms(3) by (cases Ts) auto
  have T: "shape T = (H, W)" "dtype T = Float32" "length (data T) = H * W"
    and rest: "\<forall>T\<in>set Ts'. shape T = (H, W) \<and> dtype T = Float32 \<and> length (data T) = H * W"
    and fl: "\<forall>t\<in>set (data T). is_f32 t"
    using assms(1,2) Ts by simp_all
  have "py_sum (PyTensor T) (map Inr Ts') =
     Inr (PyTensor \<lparr>shape = (H, W), dtype = Float32,
            data = map (\<lambda>m. foldl (sadd Float32) (data T ! m) (map (\<lambda>T. data T ! m) Ts')) [0..<H * W]\<rparr>)"
    by (rule py_sum_tensors [OF rest T])
  moreover have "py_sum (PyInt 0) (map Inr Ts) = py_sum (PyTensor T) (map Inr Ts')"
    by (simp add: Ts py_add_zero [OF T(2) fl])
  moreover have "map (\<lambda>m. foldl (sadd Float32) (data T ! m) (map (\<lambda>T. data T ! m) Ts')) [0..<H * W]
      = map (\<lambda>m. foldl (sadd Float32) (Fin 0) (map (\<lambda>T. data T ! m) Ts)) [0..<H * W]"
  proof (rule map_cong [OF refl])
    fix m assume "m \<in> set [0..<H * W]"
    then have "data T ! m \<in> set (data T)" using T(3) by simp
    then have "is_f32 (data T ! m)" using fl by blast
    then have "sadd Float32 (Fin 0) (data T ! m) = data T ! m"
      by (simp add: sadd_float fadd_zero)
    then show "foldl (sadd Float32) (data T ! m) (map (\<lambda>T. data T ! m) Ts')
        = foldl (sadd Float32) (Fin 0) (map (\<lambda>T. data T ! m) Ts)"
      by (simp add: Ts)
  qed
  ultimately show ?thesis by (simp only:)
qed

lemma comprehension_all: "comprehension (map (\<lambda>x. Inr (f x)) xs) = Inr (map f xs)"
  by (induction xs) simp_all

lemma tensors_of_all: "tensors_of (map (\<lambda>x. PyTensor (f x)) xs) = Some (map f xs)"
  by (induction xs) simp_all

lemma foldl_promote_floats:
  "(\<And>d. d \<in> set ds \<Longrightarrow> d = Float32) \<Longrightarrow> foldl promote Float32 ds = Float32"
  by (induction ds) (simp_all add: promote_def)

lemma stack0_same_shape:
  assumes "0 < N" and "\<And>n. n < N \<Longrightarrow> shape (R n) = (H, W) \<and> dtype (R n) = Float32"
  shows "stack0 (map (\<lambda>n. PyTensor (R n)) [0..<N]) =
     Inr \<lparr>shape = (N, H, W), dtype = Float32, data = concat (map (\<lambda>n. data (R n)) [0..<N])\<rparr>"
proof -
  have up: "[0..<N] = 0 # [1..<N]" using assms(1) by (simp add: upt_conv_Cons)
  have len: "Suc (length [1..<N]) = N" using assms(1) by simp
  have all: "list_all (\<lambda>U. shape U = shape (R 0)) (map R [1..<N])"
    using assms by (simp add: list_all_iff)
  have "foldl promote Float32 (map dtype (map R [1..<N])) = Float32"
    by (rule foldl_promote_floats) (use assms in auto)
  then have dt: "foldl promote (dtype (R 0)) (map dtype (map R [1..<N])) = Float32"
    using assms by simp
  have "stack0 (map (\<lambda>n. PyTensor (R n)) [0..<N]) =
     Inr \<lparr>shape = (Suc (length (map R [1..<N])), fst (shape (R 0)), snd (shape (R 0))),
          dtype = foldl promote (dtype (R 0)) (map dtype (map R [1..<N])),
          data = concat (map data (R 0 # map R [1..<N]))\<rparr>"
    unfolding stack0_def tensors_of_all using all by (subst up) (simp del: upt_Suc)
  moreover have "map (\<lambda>n. data (R n)) [0..<N] = data (R 0) # map (\<lambda>n. data (R n)) [1..<N]"
    by (subst up) simp
  then have "concat (map data (R 0 # map R [1..<N])) = concat (map (\<lambda>n. data (R n)) [0..<N])"
    by (simp add: comp_def)
  ultimately show ?thesis using dt len assms by simp
qed

lemma zip_map_same: "zip (map f xs) (map g xs) = map (\<lambda>x. (f x, g x)) xs"
  by (induction xs) simp_all

lemma corr2d_multi_in_1x1:
  assumes X: "shape X = (C, H, W)" "dtype X = Float32" "length (data X) = C * (H * W)"
    and k: "shape k = (C, 1, 1)" "length (data k) = C" "dtype k = Float32"
    and C: "0 < C"
  shows "corr2d_multi_in X k =
     Inr (PyTensor \<lparr>shape = (H, W), dtype = Float32,
            data = map (\<lambda>m. foldl (sadd Float32) (Fin 0)
                     (map (\<lambda>c. smul Float32 (data X ! (c * (H * W) + m)) (data k ! c)) [0..<C]))
                   [0..<H * W]\<rparr>)"
proof -
  let ?x = "\<lambda>c. \<lparr>shape = (H, W), dtype = dtype X, data = take (H * W) (drop (c * (H * W)) (data X))\<rparr>"
  let ?k = "\<lambda>c. \<lparr>shape = (1::nat, 1::nat), dtype = dtype k, data = take 1 (drop c (data k))\<rparr>"
  let ?T = "\<lambda>c. \<lparr>shape = (H, W), dtype = Float32,
                  data = map (\<lambda>m. smul Float32 (data (?x c) ! m) (data (?k c) ! 0)) [0..<H * W]\<rparr>"
  have uX: "unbind3 X = map ?x [0..<C]" using X(1) by (simp add: unbind3_def)
  have uk: "unbind3 k = map ?k [0..<C]" using k(1) by (simp add: unbind3_def)
  have "map (\<lambda>(x, k). corr2d x k) (zip (unbind3 X) (unbind3 k)) = map (\<lambda>c. corr2d (?x c) (?k c)) [0..<C]"
    by (simp add: uX uk zip_map_same)
  also have "\<dots> = map (\<lambda>c. Inr (?T c)) [0..<C]"
    by (intro map_cong refl corr2d_one_weight) (simp_all add: X(2) k(3))
  also have "\<dots> = map Inr (map ?T [0..<C])" by simp
  finally have items: "map (\<lambda>(x, k). corr2d x k) (zip (unbind3 X) (unbind3 k)) = map Inr (map ?T [0..<C])" .
  have ne: "map ?T [0..<C] \<noteq> []" using C by simp
  have "py_sum (PyInt 0) (map Inr (map ?T [0..<C])) =
     Inr (PyTensor \<lparr>shape = (H, W), dtype = Float32,
            data = map (\<lambda>m. foldl (sadd Float32) (Fin 0) (map (\<lambda>T. data T ! m) (map ?T [0..<C]))) [0..<H * W]\<rparr>)"
    by (rule py_sum_from_zero [OF _ _ ne]) (auto simp: smul_float)
  moreover have "map (\<lambda>m. foldl (sadd Float32) (Fin 0) (map (\<lambda>T. data T ! m) (map ?T [0..<C]))) [0..<H * W]
     = map (\<lambda>m. foldl (sadd Float32) (Fin 0)
                     (map (\<lambda>c. smul Float32 (data X ! (c * (H * W) + m)) (data k ! c)) [0..<C])) [0..<H * W]"
  proof (rule map_cong [OF refl])
    fix m assume "m \<in> set [0..<H * W]"
    then have m: "m < H * W" by simp
    have "map (\<lambda>T. data T ! m) (map ?T [0..<C])
        = map (\<lambda>c. smul Float32 (data X ! (c * (H * W) + m)) (data k ! c)) [0..<C]"
    proof (rule nth_equalityI)
      fix c assume "c < length (map (\<lambda>T. data T ! m) (map ?T [0..<C]))"
      then have c: "c < C" by simp
      have "c * (H * W) + m < Suc c * (H * W)" using m by simp
      also have "\<dots> \<le> C * (H * W)" using c by (intro mult_le_mono1) simp
      finally have inX: "c * (H * W) + m < length (data X)" using X(3) by simp
      have x: "take (H * W) (drop (c * (H * W)) (data X)) ! m = data X ! (c * (H * W) + m)"
        using m inX by simp
      have kk: "take 1 (drop c (data k)) ! 0 = data k ! c"
        using c k(2) by simp
      show "map (\<lambda>T. data T ! m) (map ?T [0..<C]) ! c
          = map (\<lambda>c. smul Float32 (data X ! (c * (H * W) + m)) (data k ! c)) [0..<C] ! c"
        using c m x kk by simp
    qed simp
    then show "foldl (sadd Float32) (Fin 0) (map (\<lambda>T. data T ! m) (map ?T [0..<C]))
        = foldl (sadd Float32) (Fin 0) (map (\<lambda>c. smul Float32 (data X ! (c * (H * W) + m)) (data k ! c)) [0..<C])"
      by (rule arg_cong [where f = "foldl (sadd Float32) (Fin 0)"])
  qed
  ultimately show ?thesis by (simp add: corr2d_multi_in_def items)
qed

lemma corr2d_multi_in_out_1x1_value:
  assumes X: "shape X = (C, H, W)" "dtype X = Float32"
    and K: "shape K = (N, C, 1, 1)" "dtype K = Float32"
  shows "corr2d_multi_in_out_1x1 X K =
     Inr \<lparr>shape = (N, H, W), dtype = Float32,
          data = tabulate2 N (H * W) (\<lambda>n m. foldl (sadd Float32) (Fin 0)
                   (map (\<lambda>c. smul Float32 (data K ! (n * C + c)) (data X ! (c * (H * W) + m))) [0..<C]))\<rparr>"
  using assms
  by (simp add: corr2d_multi_in_out_1x1_def reshape32_def reshape42_def reshape23_def matmul_def)

lemma corr2d_multi_in_out_value:
  assumes X: "shape X = (C, H, W)" "dtype X = Float32" "length (data X) = C * (H * W)"
    and K: "shape K = (N, C, 1, 1)" "length (data K) = N * C" "dtype K = Float32"
    and pos: "0 < C" "0 < N"
  shows "corr2d_multi_in_out X K =
     Inr \<lparr>shape = (N, H, W), dtype = Float32,
          data = tabulate2 N (H * W) (\<lambda>n m. foldl (sadd Float32) (Fin 0)
                   (map (\<lambda>c. smul Float32 (data K ! (n * C + c)) (data X ! (c * (H * W) + m))) [0..<C]))\<rparr>"
proof -
  let ?k = "\<lambda>n. \<lparr>shape = (C, 1::nat, 1::nat), dtype = dtype K, data = take C (drop (n * C) (data K))\<rparr>"
  let ?R = "\<lambda>n. \<lparr>shape = (H, W), dtype = Float32,
            data = map (\<lambda>m. foldl (sadd Float32) (Fin 0)
                     (map (\<lambda>c. smul Float32 (data K ! (n * C + c)) (data X ! (c * (H * W) + m))) [0..<C]))
                   [0..<H * W]\<rparr>"
  have uK: "unbind4 K = map ?k [0..<N]" using K(1) by (simp add: unbind4_def)
  have one: "corr2d_multi_in X (?k n) = Inr (PyTensor (?R n))" if n: "n < N" for n
  proof -
    have "n * C + C = Suc n * C" by simp
    also have "\<dots> \<le> N * C" using n by (intro mult_le_mono1) simp
    finally have le: "n * C + C \<le> length (data K)" using K(2) by simp
    then have len: "length (data (?k n)) = C" by simp
    have "corr2d_multi_in X (?k n) =
       Inr (PyTensor \<lparr>shape = (H, W), dtype = Float32,
            data = map (\<lambda>m. foldl (sadd Float32) (Fin 0)
                     (map (\<lambda>c. smul Float32 (data X ! (c * (H * W) + m)) (data (?k n) ! c)) [0..<C]))
                   [0..<H * W]\<rparr>)"
      by (rule corr2d_multi_in_1x1 [OF X _ len _ pos(1)]) (simp_all add: K(3))
    moreover have "(\<lambda>m. foldl (sadd Float32) (Fin 0)
                     (map (\<lambda>c. smul Float32 (data X ! (c * (H * W) + m)) (data (?k n) ! c)) [0..<C]))
        = (\<lambda>m. foldl (sadd Float32) (Fin 0)
                     (map (\<lambda>c. smul Float32 (data K ! (n * C + c)) (data X ! (c * (H * W) + m))) [0..<C]))"
    proof (rule ext, rule arg_cong [where f = "foldl (sadd Float32) (Fin 0)"], rule map_cong [OF refl])
      fix m c assume "c \<in> set [0..<C]"
      then have "c < C" by simp
      then have "data (?k n) ! c = data K ! (n * C + c)" using le by simp
      then show "smul Float32 (data X ! (c * (H * W) + m)) (data (?k n) ! c)
          = smul Float32 (data K ! (n * C + c)) (data X ! (c * (H * W) + m))"
        by (simp only: smul_float_commute)
    qed
    ultimately show ?thesis by (simp only:)
  qed
  have "map (\<lambda>k. corr2d_multi_in X k) (unbind4 K) = map (\<lambda>n. corr2d_multi_in X (?k n)) [0..<N]"
    by (simp add: uK comp_def)
  also have "\<dots> = map (\<lambda>n. Inr (PyTensor (?R n))) [0..<N]"
    by (intro map_cong refl one) simp
  finally have items: "map (\<lambda>k. corr2d_multi_in X k) (unbind4 K) = map (\<lambda>n. Inr (PyTensor (?R n))) [0..<N]" .
  have st: "stack0 (map (\<lambda>n. PyTensor (?R n)) [0..<N]) =
     Inr \<lparr>shape = (N, H, W), dtype = Float32, data = concat (map (\<lambda>n. data (?R n)) [0..<N])\<rparr>"
    by (rule stack0_same_shape [OF pos(2)]) simp
  have "concat (map (\<lambda>n. data (?R n)) [0..<N])
      = tabulate2 N (H * W) (\<lambda>n m. foldl (sadd Float32) (Fin 0)
                   (map (\<lambda>c. smul Float32 (data K ! (n * C + c)) (data X ! (c * (H * W) + m))) [0..<C]))"
    by (simp add: tabulate2_rows)
  then show ?thesis
    by (simp add: corr2d_multi_in_out_def items comprehension_all st)
qed

subsection \<open>The kernel of size 1 as a matrix product: the two functions agree\<close>

text \<open>
  C8. For a stack of \<open>C \<ge> 1\<close> grids of floats and \<open>N \<ge> 1\<close> stacks of \<open>C\<close>
  weights of size \<open>1 \<times> 1\<close>, also floats, \<open>corr2d_multi_in_out_1x1\<close> (the matrix product of
  the \<open>(N, C)\<close> weight matrix with the grid flattened to \<open>(C, H * W)\<close>) and
  \<open>corr2d_multi_in_out\<close> (the sliding window) both succeed and return the same tensor, of
  shape \<open>(N, H, W)\<close>: each element is the sum over the channels, in 32-bit floats, of the
  rounded products of a weight and an element. (The order in which the library's matrix
  product adds is not documented: it is taken here as the order of the channels.)
\<close>

theorem one_by_one_kernel_is_matmul:
  assumes "shape X = (C, H, W)" and "dtype X = Float32" and "length (data X) = C * (H * W)"
    and "shape K = (N, C, 1, 1)" and "dtype K = Float32" and "length (data K) = N * C"
    and "1 \<le> C" and "1 \<le> N"
  shows "corr2d_multi_in_out_1x1 X K = corr2d_multi_in_out X K
       \<and> corr2d_multi_in_out X K =
           Inr \<lparr>shape = (N, H, W), dtype = Float32,
                data = tabulate2 N (H * W) (\<lambda>n m. foldl (sadd Float32) (Fin 0)
                   (map (\<lambda>c. smul Float32 (data K ! (n * C + c)) (data X ! (c * (H * W) + m))) [0..<C]))\<rparr>"
proof -
  have pos: "0 < C" "0 < N" using assms(7,8) by simp_all
  show ?thesis
    using corr2d_multi_in_out_1x1_value [OF assms(1,2,4,5)]
      corr2d_multi_in_out_value [OF assms(1,2,3,4,6,5) pos]
    by simp
qed

theorem one_by_one_kernel_is_matmul_witness:
  "corr2d_multi_in_out_1x1 (float_stack 2 3 3 [0, 1, 2, 3, 4, 5, 6, 7, 8, 1, 2, 3, 4, 5, 6, 7, 8, 9])
       (float_kernels 2 2 1 1 [1, 2, 3, 4])
     = corr2d_multi_in_out (float_stack 2 3 3 [0, 1, 2, 3, 4, 5, 6, 7, 8, 1, 2, 3, 4, 5, 6, 7, 8, 9])
       (float_kernels 2 2 1 1 [1, 2, 3, 4])
   \<and> (\<exists>d. corr2d_multi_in_out (float_stack 2 3 3 [0, 1, 2, 3, 4, 5, 6, 7, 8, 1, 2, 3, 4, 5, 6, 7, 8, 9])
       (float_kernels 2 2 1 1 [1, 2, 3, 4]) = Inr \<lparr>shape = (2, 3, 3), dtype = Float32, data = d\<rparr>)"
proof -
  let ?X = "float_stack 2 3 3 [0, 1, 2, 3, 4, 5, 6, 7, 8, 1, 2, 3, 4, 5, 6, 7, 8, 9]"
  let ?K = "float_kernels 2 2 1 1 [1, 2, 3, 4]"
  have X: "shape ?X = (2, 3, 3)" "dtype ?X = Float32" "length (data ?X) = 2 * (3 * 3)"
    and K: "shape ?K = (2, 2, 1, 1)" "dtype ?K = Float32" "length (data ?K) = 2 * 2"
    by (simp_all add: float_stack_def float_kernels_def)
  have b: "(1::nat) \<le> 2" by simp
  show ?thesis
    using one_by_one_kernel_is_matmul [OF X K b b] by blast
qed

theorem one_by_one_kernel_degenerate_inputs:
  "corr2d_multi_in_out (float_stack 2 3 3 [0, 1, 2, 3, 4, 5, 6, 7, 8, 1, 2, 3, 4, 5, 6, 7, 8, 9])
       (float_kernels 0 2 1 1 []) = Inl StackError
   \<and> corr2d_multi_in_out_1x1 (float_stack 2 3 3 [0, 1, 2, 3, 4, 5, 6, 7, 8, 1, 2, 3, 4, 5, 6, 7, 8, 9])
       (float_kernels 0 2 1 1 []) = Inr (float_stack 0 3 3 [])
   \<and> corr2d_multi_in_out (float_stack 0 3 3 []) (float_kernels 1 0 1 1 []) = Inl TypeError
   \<and> corr2d_multi_in_out_1x1 (float_stack 0 3 3 []) (float_kernels 1 0 1 1 [])
       = Inr (float_stack 1 3 3 [0, 0, 0, 0, 0, 0, 0, 0, 0])
   \<and> corr2d_multi_in_out (int_stack 1 1 2 [5, 7]) (float_kernels 1 1 1 1 [2])
       = Inr (float_stack 1 1 2 [10, 14])
   \<and> corr2d_multi_in_out_1x1 (int_stack 1 1 2 [5, 7]) (float_kernels 1 1 1 1 [2]) = Inl MatmulError"
  by code_simp

subsection \<open>What a call changes in the store\<close>

lemma for_each_st_sim:
  assumes "\<And>x Y. case body x Y of
              Inl e \<Rightarrow> \<exists>Y'. body_st x (s0 @ [Y]) = (Some e, s0 @ [Y'])
            | Inr Y' \<Rightarrow> body_st x (s0 @ [Y]) = (None, s0 @ [Y'])"
  shows "case for_each xs body Y of
              Inl e \<Rightarrow> \<exists>Y'. for_each_st xs body_st (s0 @ [Y]) = (Some e, s0 @ [Y'])
            | Inr Y' \<Rightarrow> for_each_st xs body_st (s0 @ [Y]) = (None, s0 @ [Y'])"
proof (induction xs arbitrary: Y)
  case Nil
  then show ?case by simp
next
  case (Cons x xs)
  show ?case
  proof (cases "body x Y")
    case (Inl e)
    then show ?thesis using assms [of x Y] by auto
  next
    case (Inr Y')
    then have "body_st x (s0 @ [Y]) = (None, s0 @ [Y'])" using assms [of x Y] by simp
    then have "for_each_st (x # xs) body_st (s0 @ [Y]) = for_each_st xs body_st (s0 @ [Y'])"
      by simp
    moreover have "for_each (x # xs) body Y = for_each xs body Y'" using Inr by simp
    ultimately show ?thesis using Cons.IH [of Y'] by (simp only:)
  qed
qed

lemma st_get_old: "a < length s0 \<Longrightarrow> st_get (s0 @ [Y]) a = Inr (s0 ! a)"
  by (simp add: st_get_def nth_append)

lemma st_get_new: "st_get (s0 @ [Y]) (length s0) = Inr Y"
  by (simp add: st_get_def)

lemma st_setitem_new:
  "st_setitem (s0 @ [Y]) (length s0) i j v =
     (case setitem2 Y i j v of Inl e \<Rightarrow> (Some e, s0 @ [Y]) | Inr Y' \<Rightarrow> (None, s0 @ [Y']))"
  by (simp add: st_setitem_def st_get_new split: sum.splits)

lemma pool2d_cell_st_sim:
  assumes "aX < length s0"
  shows "case pool2d_cell (s0 ! aX) p_h p_w mode i j Y of
              Inl e \<Rightarrow> \<exists>Y'. pool2d_cell_st aX (length s0) p_h p_w mode i j (s0 @ [Y]) = (Some e, s0 @ [Y'])
            | Inr Y' \<Rightarrow> pool2d_cell_st aX (length s0) p_h p_w mode i j (s0 @ [Y]) = (None, s0 @ [Y'])"
  by (auto simp: pool2d_cell_def pool2d_cell_st_def st_get_old [OF assms] st_setitem_new
      split: sum.splits)

lemma corr2d_cell_st_sim:
  assumes "aX < length s0" "aK < length s0"
  shows "case corr2d_cell (s0 ! aX) (s0 ! aK) h w i j Y of
              Inl e \<Rightarrow> \<exists>Y'. corr2d_cell_st aX aK (length s0) h w i j (s0 @ [Y]) = (Some e, s0 @ [Y'])
            | Inr Y' \<Rightarrow> corr2d_cell_st aX aK (length s0) h w i j (s0 @ [Y]) = (None, s0 @ [Y'])"
  by (auto simp: corr2d_cell_def corr2d_cell_st_def st_get_old [OF assms(1)] st_get_old [OF assms(2)]
      st_setitem_new split: sum.splits)

lemma pool2d_st_sim:
  assumes aX: "aX < length s"
  shows "case pool2d (s ! aX) ps mode of
            Inl e \<Rightarrow> \<exists>s'. pool2d_st s aX ps mode = (Inl e, s') \<and> take (length s) s' = s
          | Inr Y \<Rightarrow> pool2d_st s aX ps mode = (Inr (length s), s @ [Y])"
proof -
  obtain p_h p_w where ps: "ps = (p_h, p_w)" by (cases ps)
  let ?X = "s ! aX"
  have get: "st_get s aX = Inr ?X" using aX by (simp add: st_get_def)
  show ?thesis
  proof (cases "zeros2 (int (fst (shape ?X)) - int p_h + 1) (int (snd (shape ?X)) - int p_w + 1)")
    case (Inl e)
    then show ?thesis by (simp add: pool2d_def pool2d_st_def ps get)
  next
    case (Inr Y0)
    let ?row = "\<lambda>i Y. for_each (py_range (snd (shape Y))) (\<lambda>j Y. pool2d_cell ?X p_h p_w mode i j Y) Y"
    let ?row_st = "\<lambda>i s'. case st_get s' (length s) of Inl e \<Rightarrow> (Some e, s')
        | Inr Y \<Rightarrow> for_each_st (py_range (snd (shape Y)))
                     (\<lambda>j s'. pool2d_cell_st aX (length s) p_h p_w mode i j s') s'"
    have row: "case ?row i Y of
              Inl e \<Rightarrow> \<exists>Y'. ?row_st i (s @ [Y]) = (Some e, s @ [Y'])
            | Inr Y' \<Rightarrow> ?row_st i (s @ [Y]) = (None, s @ [Y'])" for i Y
      unfolding st_get_new sum.case
      by (rule for_each_st_sim) (rule pool2d_cell_st_sim [OF aX])
    have loops: "case for_each (py_range (fst (shape Y0))) ?row Y0 of
              Inl e \<Rightarrow> \<exists>Y'. for_each_st (py_range (fst (shape Y0))) ?row_st (s @ [Y0]) = (Some e, s @ [Y'])
            | Inr Y' \<Rightarrow> for_each_st (py_range (fst (shape Y0))) ?row_st (s @ [Y0]) = (None, s @ [Y'])"
      by (rule for_each_st_sim) (rule row)
    show ?thesis
    proof (cases "for_each (py_range (fst (shape Y0))) ?row Y0")
      case (Inl e)
      then obtain Y' where "for_each_st (py_range (fst (shape Y0))) ?row_st (s @ [Y0]) = (Some e, s @ [Y'])"
        using loops by auto
      then show ?thesis using Inl Inr by (simp add: pool2d_def pool2d_st_def ps get st_alloc_def)
    next
      case (Inr Y)
      then have "for_each_st (py_range (fst (shape Y0))) ?row_st (s @ [Y0]) = (None, s @ [Y])"
        using loops by simp
      then show ?thesis using Inr \<open>zeros2 _ _ = Inr Y0\<close>
        by (simp add: pool2d_def pool2d_st_def ps get st_alloc_def)
    qed
  qed
qed

lemma corr2d_st_sim:
  assumes aX: "aX < length s" and aK: "aK < length s"
  shows "case corr2d (s ! aX) (s ! aK) of
            Inl e \<Rightarrow> \<exists>s'. corr2d_st s aX aK = (Inl e, s') \<and> take (length s) s' = s
          | Inr Y \<Rightarrow> corr2d_st s aX aK = (Inr (length s), s @ [Y])"
proof -
  let ?X = "s ! aX" and ?K = "s ! aK"
  obtain h w where shK: "shape ?K = (h, w)" by (cases "shape ?K")
  have get: "st_get s aX = Inr ?X" "st_get s aK = Inr ?K" using aX aK by (simp_all add: st_get_def)
  show ?thesis
  proof (cases "zeros2 (int (fst (shape ?X)) - int h + 1) (int (snd (shape ?X)) - int w + 1)")
    case (Inl e)
    then show ?thesis by (simp add: corr2d_def corr2d_st_def shK get)
  next
    case (Inr Y0)
    let ?row = "\<lambda>i Y. for_each (py_range (snd (shape Y))) (\<lambda>j Y. corr2d_cell ?X ?K h w i j Y) Y"
    let ?row_st = "\<lambda>i s'. case st_get s' (length s) of Inl e \<Rightarrow> (Some e, s')
        | Inr Y \<Rightarrow> for_each_st (py_range (snd (shape Y)))
                     (\<lambda>j s'. corr2d_cell_st aX aK (length s) h w i j s') s'"
    have row: "case ?row i Y of
              Inl e \<Rightarrow> \<exists>Y'. ?row_st i (s @ [Y]) = (Some e, s @ [Y'])
            | Inr Y' \<Rightarrow> ?row_st i (s @ [Y]) = (None, s @ [Y'])" for i Y
      unfolding st_get_new sum.case
      by (rule for_each_st_sim) (rule corr2d_cell_st_sim [OF aX aK])
    have loops: "case for_each (py_range (fst (shape Y0))) ?row Y0 of
              Inl e \<Rightarrow> \<exists>Y'. for_each_st (py_range (fst (shape Y0))) ?row_st (s @ [Y0]) = (Some e, s @ [Y'])
            | Inr Y' \<Rightarrow> for_each_st (py_range (fst (shape Y0))) ?row_st (s @ [Y0]) = (None, s @ [Y'])"
      by (rule for_each_st_sim) (rule row)
    show ?thesis
    proof (cases "for_each (py_range (fst (shape Y0))) ?row Y0")
      case (Inl e)
      then obtain Y' where "for_each_st (py_range (fst (shape Y0))) ?row_st (s @ [Y0]) = (Some e, s @ [Y'])"
        using loops by auto
      then show ?thesis using Inl Inr by (simp add: corr2d_def corr2d_st_def shK get st_alloc_def)
    next
      case (Inr Y)
      then have "for_each_st (py_range (fst (shape Y0))) ?row_st (s @ [Y0]) = (None, s @ [Y])"
        using loops by simp
      then show ?thesis using Inr \<open>zeros2 _ _ = Inr Y0\<close>
        by (simp add: corr2d_def corr2d_st_def shK get st_alloc_def)
    qed
  qed
qed

text \<open>
  C9. A call of \<open>pool2d\<close> or \<open>corr2d\<close> on a store does what the function on values says
  and nothing else. When the function returns \<open>Y\<close>, the call returns the address of one
  new object, equal to \<open>Y\<close>, appended to the store: every object that existed before the
  call, the grid and the weights among them, is what it was. When the function fails,
  the call fails with the same error and again leaves every earlier object as it was.
  A second call with the same arguments, made in the store the first call left, returns
  a second new object equal to the first result: the first call left no trace that the
  second could see.
\<close>

theorem calls_leave_inputs_unchanged:
  assumes "aX < length s" and "aK < length s"
  shows "(case pool2d (s ! aX) ps mode of
            Inl e \<Rightarrow> \<exists>s'. pool2d_st s aX ps mode = (Inl e, s') \<and> take (length s) s' = s
          | Inr Y \<Rightarrow> pool2d_st s aX ps mode = (Inr (length s), s @ [Y])
                   \<and> pool2d_st (s @ [Y]) aX ps mode = (Inr (Suc (length s)), s @ [Y, Y]))
       \<and> (case corr2d (s ! aX) (s ! aK) of
            Inl e \<Rightarrow> \<exists>s'. corr2d_st s aX aK = (Inl e, s') \<and> take (length s) s' = s
          | Inr Y \<Rightarrow> corr2d_st s aX aK = (Inr (length s), s @ [Y])
                   \<and> corr2d_st (s @ [Y]) aX aK = (Inr (Suc (length s)), s @ [Y, Y]))"
proof
  show "case pool2d (s ! aX) ps mode of
            Inl e \<Rightarrow> \<exists>s'. pool2d_st s aX ps mode = (Inl e, s') \<and> take (length s) s' = s
          | Inr Y \<Rightarrow> pool2d_st s aX ps mode = (Inr (length s), s @ [Y])
                   \<and> pool2d_st (s @ [Y]) aX ps mode = (Inr (Suc (length s)), s @ [Y, Y])"
  proof (cases "pool2d (s ! aX) ps mode")
    case (Inl e)
    then show ?thesis using pool2d_st_sim [OF assms(1), of ps mode] by simp
  next
    case (Inr Y)
    have first: "pool2d_st s aX ps mode = (Inr (length s), s @ [Y])"
      using pool2d_st_sim [OF assms(1), of ps mode] Inr by simp
    have a: "aX < length (s @ [Y])" using assms(1) by simp
    have same: "(s @ [Y]) ! aX = s ! aX" using assms(1) by (simp add: nth_append)
    have "pool2d_st (s @ [Y]) aX ps mode = (Inr (length (s @ [Y])), (s @ [Y]) @ [Y])"
      using pool2d_st_sim [OF a, of ps mode] Inr unfolding same by simp
    then show ?thesis using Inr first by simp
  qed
next
  show "case corr2d (s ! aX) (s ! aK) of
            Inl e \<Rightarrow> \<exists>s'. corr2d_st s aX aK = (Inl e, s') \<and> take (length s) s' = s
          | Inr Y \<Rightarrow> corr2d_st s aX aK = (Inr (length s), s @ [Y])
                   \<and> corr2d_st (s @ [Y]) aX aK = (Inr (Suc (length s)), s @ [Y, Y])"
  proof (cases "corr2d (s ! aX) (s ! aK)")
    case (Inl e)
    then show ?thesis using corr2d_st_sim [OF assms] by simp
  next
    case (Inr Y)
    have first: "corr2d_st s aX aK = (Inr (length s), s @ [Y])"
      using corr2d_st_sim [OF assms] Inr by simp
    have a: "aX < length (s @ [Y])" "aK < length (s @ [Y])" using assms by simp_all
    have same: "(s @ [Y]) ! aX = s ! aX" "(s @ [Y]) ! aK = s ! aK"
      using assms by (simp_all add: nth_append)
    have "corr2d_st (s @ [Y]) aX aK = (Inr (length (s @ [Y])), (s @ [Y]) @ [Y])"
      using corr2d_st_sim [OF a] Inr unfolding same by simp
    then show ?thesis using Inr first by simp
  qed
qed

theorem calls_leave_inputs_unchanged_witness:
  "pool2d_st [float_grid 3 3 [0, 1, 2, 3, 4, 5, 6, 7, 8], float_grid 2 2 [0, 1, 2, 3]] 0 (2, 2) ''max''
     = (Inr 2, [float_grid 3 3 [0, 1, 2, 3, 4, 5, 6, 7, 8], float_grid 2 2 [0, 1, 2, 3],
                float_grid 2 2 [4, 5, 7, 8]])
   \<and> pool2d_st [float_grid 3 3 [0, 1, 2, 3, 4, 5, 6, 7, 8], float_grid 2 2 [0, 1, 2, 3],
                float_grid 2 2 [4, 5, 7, 8]] 0 (2, 2) ''max''
     = (Inr 3, [float_grid 3 3 [0, 1, 2, 3, 4, 5, 6, 7, 8], float_grid 2 2 [0, 1, 2, 3],
                float_grid 2 2 [4, 5, 7, 8], float_grid 2 2 [4, 5, 7, 8]])
   \<and> corr2d_st [float_grid 3 3 [0, 1, 2, 3, 4, 5, 6, 7, 8], float_grid 2 2 [0, 1, 2, 3]] 0 1
     = (Inr 2, [float_grid 3 3 [0, 1, 2, 3, 4, 5, 6, 7, 8], float_grid 2 2 [0, 1, 2, 3],
                float_grid 2 2 [19, 25, 37, 43]])
   \<and> corr2d_st [float_grid 3 3 [0, 1, 2, 3, 4, 5, 6, 7, 8], float_grid 2 2 [0, 1, 2, 3],
                float_grid 2 2 [19, 25, 37, 43]] 0 1
     = (Inr 3, [float_grid 3 3 [0, 1, 2, 3, 4, 5, 6, 7, 8], float_grid 2 2 [0, 1, 2, 3],
                float_grid 2 2 [19, 25, 37, 43], float_grid 2 2 [19, 25, 37, 43]])"
proof -
  let ?s = "[float_grid 3 3 [0, 1, 2, 3, 4, 5, 6, 7, 8], float_grid 2 2 [0, 1, 2, 3]]"
  have a: "0 < length ?s" "1 < length ?s" by simp_all
  have p: "pool2d (?s ! 0) (2, 2) ''max'' = Inr (float_grid 2 2 [4, 5, 7, 8])" by code_simp
  have c: "corr2d (?s ! 0) (?s ! 1) = Inr (float_grid 2 2 [19, 25, 37, 43])" by code_simp
  show ?thesis
    using calls_leave_inputs_unchanged [OF a, of "(2, 2)" "''max''"]
    unfolding p c by simp
qed

end
